theory Spec2Isabelle
  imports Complex_Main
begin

section \<open>Byte strings and the string operations of the readers\<close>

text \<open>
  The program is Python 2: every file is opened in mode \<^verbatim>\<open>'rb'\<close> and every string is a
  byte string, modelled as \<^typ>\<open>string\<close>. The operations below are the ones the source
  calls on \<^verbatim>\<open>str\<close>: \<^verbatim>\<open>startswith\<close>, \<^verbatim>\<open>strip\<close>, \<^verbatim>\<open>rstrip\<close>,
  \<^verbatim>\<open>split()\<close>, \<^verbatim>\<open>join\<close>, \<^verbatim>\<open>int(...)\<close> and \<^verbatim>\<open>'%s' % n\<close>.
\<close>

definition CR :: char where
  "CR = CHR 0x0D"

definition LF :: char where
  "LF = CHR 0x0A"

definition TAB :: char where
  "TAB = CHR 0x09"

definition CRLF :: string where
  "CRLF = [CR, LF]"

text \<open>\<^verbatim>\<open>s.startswith(p)\<close>\<close>

definition startswith :: "string \<Rightarrow> string \<Rightarrow> bool" where
  "startswith s p = (take (length p) s = p)"

text \<open>\<^verbatim>\<open>s.rstrip(chars)\<close> and \<^verbatim>\<open>s.strip(chars)\<close>: drop the characters of \<open>chars\<close>
  from the right end, respectively from both ends.\<close>

definition rstrip :: "string \<Rightarrow> string \<Rightarrow> string" where
  "rstrip s chars = rev (dropWhile (\<lambda>c. c \<in> set chars) (rev s))"

definition strip :: "string \<Rightarrow> string \<Rightarrow> string" where
  "strip s chars = rstrip (dropWhile (\<lambda>c. c \<in> set chars) s) chars"

text \<open>\<^verbatim>\<open>s.split()\<close> without arguments: the maximal runs of non-whitespace bytes. The
  whitespace bytes of a Python 2 \<^verbatim>\<open>str\<close> are space, TAB, LF, VT, FF and CR.\<close>

definition isspace :: "char \<Rightarrow> bool" where
  "isspace c = (c \<in> set [CHR '' '', CHR 0x09, CHR 0x0A, CHR 0x0B, CHR 0x0C, CHR 0x0D])"

fun split_from :: "string \<Rightarrow> string \<Rightarrow> string list" where
  "split_from cur [] = (if cur = [] then [] else [cur])"
| "split_from cur (c # cs) =
     (if isspace c then (if cur = [] then split_from [] cs else cur # split_from [] cs)
      else split_from (cur @ [c]) cs)"

definition split :: "string \<Rightarrow> string list" where
  "split s = split_from [] s"

text \<open>\<^verbatim>\<open>sep.join(xs)\<close>\<close>

fun join :: "string \<Rightarrow> string list \<Rightarrow> string" where
  "join sep [] = []"
| "join sep [x] = x"
| "join sep (x # y # ys) = x @ sep @ join sep (y # ys)"

text \<open>\<^verbatim>\<open>'%s' % n\<close> for a length \<open>n\<close>: its decimal digits.\<close>

definition digit_char :: "nat \<Rightarrow> char" where
  "digit_char d = char_of (48 + d)"

fun str :: "nat \<Rightarrow> string" where
  "str n = (if n < 10 then [digit_char n] else str (n div 10) @ [digit_char (n mod 10)])"

declare str.simps [simp del]

text \<open>\<^verbatim>\<open>int(s)\<close> on a byte string that holds no whitespace (a field returned by
  \<^verbatim>\<open>split()\<close>): an optional sign followed by one or more decimal digits; anything else
  raises \<^verbatim>\<open>ValueError\<close>, which is the value \<open>None\<close> here.\<close>

definition isdigit :: "char \<Rightarrow> bool" where
  "isdigit c = (c \<in> set ''0123456789'')"

definition digit_val :: "char \<Rightarrow> nat" where
  "digit_val c = of_char c - 48"

definition digits_val :: "string \<Rightarrow> nat" where
  "digits_val ds = foldl (\<lambda>n c. 10 * n + digit_val c) 0 ds"

definition unsigned :: "string \<Rightarrow> nat option" where
  "unsigned ds = (if ds \<noteq> [] \<and> list_all isdigit ds then Some (digits_val ds) else None)"

definition py_int :: "string \<Rightarrow> int option" where
  "py_int s =
     (case s of
        [] \<Rightarrow> None
      | c # cs \<Rightarrow>
          if c = CHR ''-'' then map_option (\<lambda>n. - int n) (unsigned cs)
          else if c = CHR ''+'' then map_option int (unsigned cs)
          else map_option int (unsigned s))"

section \<open>The request builder: class HttpAmmo\<close>

text \<open>
  \<^verbatim>\<open>self.headers\<close> is a Python \<^verbatim>\<open>set\<close> of strings. \<open>HttpAmmo_init\<close> receives the
  value of \<^verbatim>\<open>set(headers)\<close>; a caller holding a list \<open>hs\<close> passes \<open>set hs\<close>.
\<close>

text \<open>The field \<open>http_method\<close> is \<^verbatim>\<open>self.method\<close>.\<close>

record HttpAmmo =
  http_method :: string
  uri :: string
  proto :: string
  headers :: "string set"
  body :: string

definition content_length :: "string \<Rightarrow> string" where
  "content_length b = ''Content-Length: '' @ str (length b)"

definition HttpAmmo_init :: "string \<Rightarrow> string set \<Rightarrow> string \<Rightarrow> string \<Rightarrow> string \<Rightarrow> HttpAmmo" where
  "HttpAmmo_init u hs m http_ver b =
     \<lparr> http_method = m, uri = u, proto = ''HTTP/'' @ http_ver,
       headers = (if length b \<noteq> 0 then insert (content_length b) hs else hs),
       body = b \<rparr>"

text \<open>
  \<^verbatim>\<open>'\r\n'.join(self.headers)\<close> walks the set in the order Python's hashing gives, which
  the language leaves open. The order is the parameter \<open>order\<close>: a function that lists a
  set. What is proved below assumes only that it lists each member once.
\<close>

definition to_s :: "(string set \<Rightarrow> string list) \<Rightarrow> HttpAmmo \<Rightarrow> string" where
  "to_s order a =
     (let hdrs = (if headers a \<noteq> {} then join CRLF (order (headers a)) @ CRLF else [])
      in http_method a @ '' '' @ uri a @ '' '' @ proto a @ CRLF @ hdrs @ CRLF @ body a)"

text \<open>The header lines of the rendered request, one per member of the set.\<close>

definition header_lines :: "(string set \<Rightarrow> string list) \<Rightarrow> HttpAmmo \<Rightarrow> string list" where
  "header_lines order a = order (headers a)"

definition lists_set :: "(string set \<Rightarrow> string list) \<Rightarrow> string set \<Rightarrow> bool" where
  "lists_set order S = (set (order S) = S \<and> distinct (order S))"

section \<open>The ammo file and the status sink\<close>

text \<open>
  Modelled from the spec: module \<^verbatim>\<open>info\<close> is not among the sources. Its object
  \<^verbatim>\<open>info.status\<close> is the process-wide status sink; the fields \<open>af_size\<close>,
  \<open>af_position\<close>, \<open>loop_count\<close> and \<open>ammo_count\<close> are plain attributes
  (\<open>ammo_count\<close> a record count, an integer), and \<^verbatim>\<open>inc_loop_count()\<close> is the
  increment operation of \<open>loop_count\<close>.

  A reader holds an open file (its bytes and the position \<^verbatim>\<open>tell()\<close> returns) and writes
  to the status. Both are fields of one state record, passed through every operation; the
  readers that keep more state extend it.
\<close>

record status =
  af_size :: nat
  af_position :: nat
  loop_count :: int
  ammo_count :: int

text \<open>An open file: its bytes and the offset of the next read. \<open>alloc_max\<close> is the
  size of the largest buffer the machine grants to a \<^verbatim>\<open>read\<close> that asks for more bytes
  than the file has left.\<close>

record reader_state = status +
  fdata :: string
  fpos :: nat
  alloc_max :: int

text \<open>A record handed to the consumer: the payload and the marker (\<open>None\<close> for Python's
  \<^verbatim>\<open>None\<close>).\<close>

type_synonym missile = "string \<times> string option"

text \<open>\<^verbatim>\<open>ammo_file.readline()\<close>: the bytes up to and including the next LF, or up to the
  end of the file; the empty string at the end of the file.\<close>

definition readline :: "'a reader_state_scheme \<Rightarrow> string \<times> 'a reader_state_scheme" where
  "readline f =
     (let rest = drop (fpos f) (fdata f);
          line = takeWhile (\<lambda>c. c \<noteq> LF) rest @ take 1 (dropWhile (\<lambda>c. c \<noteq> LF) rest)
      in (line, f\<lparr>fpos := fpos f + length line\<rparr>))"

text \<open>The exceptions of Python that the readers meet.\<close>

datatype py_exception = IndexError | ValueError string | TypeError | OverflowError | MemoryError

text \<open>The largest C long of the platform (LP64).\<close>

definition C_LONG_MAX :: int where
  "C_LONG_MAX = 9223372036854775807"

text \<open>\<^verbatim>\<open>ammo_file.read(n)\<close>: at most \<open>n\<close> bytes; all the remaining bytes when \<open>n\<close> is
  negative. CPython 2 converts the size to a C long and allocates a buffer of that many
  bytes before it reads any: a size beyond \<open>C_LONG_MAX\<close> raises \<^verbatim>\<open>OverflowError\<close>, and
  one the machine does not grant raises \<^verbatim>\<open>MemoryError\<close>. A request for no more bytes
  than are left is granted: the offsets of a file are C longs, so such a size fits one, and
  the payloads that are in the file are taken to fit the memory. \<open>alloc_max\<close> bounds the
  requests beyond that.\<close>

definition read ::
  "int \<Rightarrow> 'a reader_state_scheme \<Rightarrow> py_exception + (string \<times> 'a reader_state_scheme)" where
  "read n f =
     (let rest = drop (fpos f) (fdata f) in
      if n < 0 then Inr (rest, f\<lparr>fpos := fpos f + length rest\<rparr>)
      else if n \<le> int (length rest)
      then Inr (take (nat n) rest, f\<lparr>fpos := fpos f + length (take (nat n) rest)\<rparr>)
      else if C_LONG_MAX < n then Inl OverflowError
      else if alloc_max f < n then Inl MemoryError
      else Inr (rest, f\<lparr>fpos := fpos f + length rest\<rparr>))"

text \<open>\<^verbatim>\<open>ammo_file.seek(0)\<close>\<close>

definition seek0 :: "'a reader_state_scheme \<Rightarrow> 'a reader_state_scheme" where
  "seek0 f = f\<lparr>fpos := 0\<rparr>"

text \<open>Modelled from the spec: \<^verbatim>\<open>info.status.inc_loop_count()\<close> is a method of the missing
  module \<^verbatim>\<open>info\<close>; it adds one to the loop count.\<close>

definition inc_loop_count :: "'a status_scheme \<Rightarrow> 'a status_scheme" where
  "inc_loop_count f = f\<lparr>loop_count := loop_count f + 1\<rparr>"

text \<open>Opening the file: \<^verbatim>\<open>with get_opener(self.filename)(self.filename, 'rb')\<close> starts at
  offset 0, and \<^verbatim>\<open>info.status.af_size = os.path.getsize(self.filename)\<close>. (The file is
  taken uncompressed, so that its size is the number of its bytes.)\<close>

definition open_file :: "'a reader_state_scheme \<Rightarrow> 'a reader_state_scheme" where
  "open_file f = f\<lparr>fpos := 0\<rparr>"

definition set_af_size :: "'a reader_state_scheme \<Rightarrow> 'a reader_state_scheme" where
  "set_af_size f = f\<lparr>af_size := length (fdata f)\<rparr>"

section \<open>What a pull on a generator gives\<close>

text \<open>
  One step of a generator's loop either goes round again with a new header (\<open>Continue\<close>,
  the source's \<^verbatim>\<open>continue\<close>), suspends at its \<^verbatim>\<open>yield\<close> with a record, raises
  \<^verbatim>\<open>AmmoFileError\<close>, lets another exception out that no handler catches (\<open>Failed\<close>),
  or leaves the loop, which ends the generator (\<^verbatim>\<open>StopIteration\<close>). Each carries
  the state at that point.
\<close>

text \<open>Modelled from the spec: module \<^verbatim>\<open>module_exceptions\<close> is not among the sources. Its
  \<^verbatim>\<open>AmmoFileError\<close> is the fatal format error, an exception class of its own and not a kind
  of \<^verbatim>\<open>IndexError\<close> or \<^verbatim>\<open>ValueError\<close>. It is raised with one of two messages: the
  bytes read and the bytes expected, or the position, the header and the exception caught.\<close>

datatype AmmoFileError =
    UnexpectedEOF nat int
  | HeaderError nat string py_exception

datatype 's step =
    Continue string 's
  | Yielded missile 's
  | Raised AmmoFileError 's
  | Failed py_exception 's
  | Stopped 's

section \<open>The chunked binary reader: class AmmoFileReader\<close>

text \<open>
  The inner function \<^verbatim>\<open>read_chunk_header\<close>. The source compares with \<^verbatim>\<open>is ''\<close>,
  the identity of the empty string, which holds of every empty string CPython 2 makes;
  it is equality here. The loop ends: a non-empty line moves the position forward.
\<close>

function read_chunk_header :: "'a reader_state_scheme \<Rightarrow> string \<times> 'a reader_state_scheme" where
  "read_chunk_header f =
     (case readline f of (line, f') \<Rightarrow>
        if line = [] then (line, f')
        else (let chunk_header = strip line CRLF
              in if chunk_header = [] then read_chunk_header f' else (chunk_header, f')))"
  by pat_completeness auto
termination
proof (relation "measure (\<lambda>f. length (fdata f) - fpos f)")
  show "wf (measure (\<lambda>f::'a reader_state_scheme. length (fdata f) - fpos f))"
    by simp
next
  fix f f' :: "'a reader_state_scheme" and line chunk_header :: string
  assume r: "(line, f') = readline f" and ne: "line \<noteq> []"
  let ?rest = "drop (fpos f) (fdata f)"
  have l: "line = takeWhile (\<lambda>c. c \<noteq> LF) ?rest @ take 1 (dropWhile (\<lambda>c. c \<noteq> LF) ?rest)"
    and f': "f' = f\<lparr>fpos := fpos f + length line\<rparr>"
    using r by (simp_all add: readline_def Let_def)
  have "length line \<le> length (takeWhile (\<lambda>c. c \<noteq> LF) ?rest) + length (dropWhile (\<lambda>c. c \<noteq> LF) ?rest)"
    unfolding l by simp
  also have "\<dots> = length ?rest"
    by (metis length_append takeWhile_dropWhile_id)
  finally have "length line \<le> length (fdata f) - fpos f"
    by simp
  moreover have "0 < length line"
    using ne by simp
  ultimately have "length (fdata f) - (fpos f + length line) < length (fdata f) - fpos f"
    by arith
  then show "(f', f) \<in> measure (\<lambda>f. length (fdata f) - fpos f)"
    by (simp add: f')
qed

declare read_chunk_header.simps [simp del]

text \<open>
  One turn of \<^verbatim>\<open>while chunk_header:\<close> for a non-empty header, from the \<^verbatim>\<open>try\<close> to
  the \<^verbatim>\<open>continue\<close>, the \<^verbatim>\<open>yield\<close> or the \<^verbatim>\<open>raise\<close>. \<^verbatim>\<open>fields[0]\<close> of an empty
  list raises \<^verbatim>\<open>IndexError\<close> and \<^verbatim>\<open>int\<close> of a non-number \<^verbatim>\<open>ValueError\<close>; the
  handler turns both into \<^verbatim>\<open>AmmoFileError\<close> with \<^verbatim>\<open>ammo_file.tell()\<close>, the header and
  the exception. The truncation error is not one of the two and passes through, and so
  does an exception of \<^verbatim>\<open>read\<close>, which leaves the generator as it is.
\<close>

definition AmmoFileReader_body :: "string \<Rightarrow> 'a reader_state_scheme \<Rightarrow> 'a reader_state_scheme step" where
  "AmmoFileReader_body chunk_header f =
     (let fields = split chunk_header in
      case fields of
        [] \<Rightarrow> Raised (HeaderError (fpos f) chunk_header IndexError) f
      | field0 # _ \<Rightarrow>
          (case py_int field0 of
             None \<Rightarrow> Raised (HeaderError (fpos f) chunk_header (ValueError field0)) f
           | Some chunk_size \<Rightarrow>
               if chunk_size = 0 then
                 (case read_chunk_header (inc_loop_count (seek0 f)) of
                    (chunk_header', f') \<Rightarrow> Continue chunk_header' f')
               else
                 (let marker = (if length fields > 1 then Some (fields ! 1) else None)
                  in case read chunk_size f of
                       Inl e \<Rightarrow> Failed e f
                     | Inr (missile, f') \<Rightarrow>
                         if int (length missile) < chunk_size
                         then Raised (UnexpectedEOF (length missile) chunk_size) f'
                         else Yielded (missile, marker) f')))"

text \<open>The loop from its head. It need not come to a \<^verbatim>\<open>yield\<close>: over a file whose first
  header is \<^verbatim>\<open>0\<close> it goes round for ever, which is the value \<open>None\<close>.\<close>

partial_function (option) AmmoFileReader_loop ::
  "string \<Rightarrow> 'a reader_state_scheme \<Rightarrow> 'a reader_state_scheme step option" where
  "AmmoFileReader_loop chunk_header f =
     (if chunk_header = [] then Some (Stopped f)
      else (case AmmoFileReader_body chunk_header f of
              Continue chunk_header' f' \<Rightarrow> AmmoFileReader_loop chunk_header' f'
            | Yielded m f' \<Rightarrow> Some (Yielded m f')
            | Raised e f' \<Rightarrow> Some (Raised e f')
            | Failed e f' \<Rightarrow> Some (Failed e f')
            | Stopped f' \<Rightarrow> Some (Stopped f')))"

text \<open>The lines after the \<^verbatim>\<open>yield\<close>, run when the consumer pulls again: read the next
  header, start over at the end of the file, publish the position.\<close>

definition AmmoFileReader_advance :: "'a reader_state_scheme \<Rightarrow> string \<times> 'a reader_state_scheme" where
  "AmmoFileReader_advance f =
     (case read_chunk_header f of (chunk_header, f1) \<Rightarrow>
        (case (if chunk_header = [] then read_chunk_header (inc_loop_count (seek0 f1))
               else (chunk_header, f1)) of
           (chunk_header', f2) \<Rightarrow> (chunk_header', f2\<lparr>af_position := fpos f2\<rparr>)))"

text \<open>The first pull runs \<^verbatim>\<open>__iter__\<close> from its start; a later pull resumes after the
  \<^verbatim>\<open>yield\<close>.\<close>

definition AmmoFileReader_first :: "'a reader_state_scheme \<Rightarrow> 'a reader_state_scheme step option" where
  "AmmoFileReader_first f =
     (case read_chunk_header (set_af_size (open_file f)) of
        (chunk_header, f') \<Rightarrow> AmmoFileReader_loop chunk_header f')"

definition AmmoFileReader_next :: "'a reader_state_scheme \<Rightarrow> 'a reader_state_scheme step option" where
  "AmmoFileReader_next f =
     (case AmmoFileReader_advance f of
        (chunk_header, f') \<Rightarrow> AmmoFileReader_loop chunk_header f')"

text \<open>The consumer draws \<open>n\<close> records: the records and the state the generator is suspended
  in; \<open>None\<close> when a pull ends in an error, in \<^verbatim>\<open>StopIteration\<close> or does not return.\<close>

fun draw_more :: "('s \<Rightarrow> 's step option) \<Rightarrow> nat \<Rightarrow> 's \<Rightarrow> (missile list \<times> 's) option" where
  "draw_more nxt 0 f = Some ([], f)"
| "draw_more nxt (Suc n) f =
     (case nxt f of
        Some (Yielded m f') \<Rightarrow>
          (case draw_more nxt n f' of Some (ms, f'') \<Rightarrow> Some (m # ms, f'') | None \<Rightarrow> None)
      | _ \<Rightarrow> None)"

definition draw :: "('s \<Rightarrow> 's step option) \<Rightarrow> ('s \<Rightarrow> 's step option) \<Rightarrow> nat \<Rightarrow> 's \<Rightarrow> (missile list \<times> 's) option" where
  "draw first nxt n f =
     (case n of
        0 \<Rightarrow> Some ([], f)
      | Suc k \<Rightarrow>
          (case first f of
             Some (Yielded m f') \<Rightarrow>
               (case draw_more nxt k f' of Some (ms, f'') \<Rightarrow> Some (m # ms, f'') | None \<Rightarrow> None)
           | _ \<Rightarrow> None))"

definition AmmoFileReader_draw :: "nat \<Rightarrow> 'a reader_state_scheme \<Rightarrow> (missile list \<times> 'a reader_state_scheme) option" where
  "AmmoFileReader_draw n f = draw AmmoFileReader_first AmmoFileReader_next n f"

section \<open>The URI+POST reader: class UriPostReader\<close>

text \<open>The readers of the URI family keep \<^verbatim>\<open>self.headers\<close>, a set that lives as long as
  the reader, and \<^verbatim>\<open>self.http_ver\<close>.\<close>

record uri_reader_state = reader_state +
  self_headers :: "string set"
  http_ver :: string

definition header_chars :: string where
  "header_chars = [CR, LF, CHR ''['', CHR '']'', TAB, CHR '' '']"

text \<open>Its \<^verbatim>\<open>read_chunk_header\<close>: a line that starts with a bracket goes into
  \<^verbatim>\<open>self.headers\<close> and the scan goes on.\<close>

function UriPostReader_read_chunk_header ::
  "'a uri_reader_state_scheme \<Rightarrow> string \<times> 'a uri_reader_state_scheme" where
  "UriPostReader_read_chunk_header f =
     (case readline f of (line, f') \<Rightarrow>
        if startswith line ''[''
        then UriPostReader_read_chunk_header
               (f'\<lparr>self_headers := insert (strip line header_chars) (self_headers f')\<rparr>)
        else if line = [] then (line, f')
        else (let chunk_header = strip line CRLF
              in if chunk_header = [] then UriPostReader_read_chunk_header f'
                 else (chunk_header, f')))"
  by pat_completeness auto
termination
proof (relation "measure (\<lambda>f. length (fdata f) - fpos f)")
  show "wf (measure (\<lambda>f::'a uri_reader_state_scheme. length (fdata f) - fpos f))"
    by simp
next
  have adv: "length (fdata f') - fpos f' < length (fdata f) - fpos f"
    if r: "(line, f') = readline f" and ne: "line \<noteq> []"
    for f f' :: "'a uri_reader_state_scheme" and line
  proof -
    let ?rest = "drop (fpos f) (fdata f)"
    have l: "line = takeWhile (\<lambda>c. c \<noteq> LF) ?rest @ take 1 (dropWhile (\<lambda>c. c \<noteq> LF) ?rest)"
      and f': "f' = f\<lparr>fpos := fpos f + length line\<rparr>"
      using r by (simp_all add: readline_def Let_def)
    have "length line \<le> length (takeWhile (\<lambda>c. c \<noteq> LF) ?rest) + length (dropWhile (\<lambda>c. c \<noteq> LF) ?rest)"
      unfolding l by simp
    also have "\<dots> = length ?rest"
      by (metis length_append takeWhile_dropWhile_id)
    finally have "length line \<le> length (fdata f) - fpos f"
      by simp
    moreover have "0 < length line"
      using ne by simp
    ultimately have "length (fdata f) - (fpos f + length line) < length (fdata f) - fpos f"
      by arith
    then show ?thesis
      by (simp add: f')
  qed
  {
    fix f f' :: "'a uri_reader_state_scheme" and line :: string
    assume "(line, f') = readline f" and "startswith line ''[''"
    moreover from this have "line \<noteq> []"
      by (auto simp: startswith_def)
    ultimately show "(f'\<lparr>self_headers := insert (strip line header_chars) (self_headers f')\<rparr>, f)
                 \<in> measure (\<lambda>f. length (fdata f) - fpos f)"
      using adv [of line f' f] by simp
  next
    fix f f' :: "'a uri_reader_state_scheme" and line chunk_header :: string
    assume "(line, f') = readline f" and "line \<noteq> []"
    then show "(f', f) \<in> measure (\<lambda>f. length (fdata f) - fpos f)"
      using adv [of line f' f] by simp
  }
qed

declare UriPostReader_read_chunk_header.simps [simp del]

text \<open>One turn of its loop. After \<^verbatim>\<open>int(fields[0])\<close> and the test for 0 comes
  \<^verbatim>\<open>fields[1]\<close>, an \<^verbatim>\<open>IndexError\<close> when the URI is missing; the record is the
  rendered POST request. \<open>order\<close> is the order in which a set is walked.\<close>

definition UriPostReader_body ::
  "(string set \<Rightarrow> string list) \<Rightarrow> string \<Rightarrow> 'a uri_reader_state_scheme \<Rightarrow> 'a uri_reader_state_scheme step" where
  "UriPostReader_body order chunk_header f =
     (let fields = split chunk_header in
      case fields of
        [] \<Rightarrow> Raised (HeaderError (fpos f) chunk_header IndexError) f
      | field0 # _ \<Rightarrow>
          (case py_int field0 of
             None \<Rightarrow> Raised (HeaderError (fpos f) chunk_header (ValueError field0)) f
           | Some chunk_size \<Rightarrow>
               if chunk_size = 0 then
                 (case UriPostReader_read_chunk_header (inc_loop_count (seek0 f)) of
                    (chunk_header', f') \<Rightarrow> Continue chunk_header' f')
               else if length fields \<le> 1
               then Raised (HeaderError (fpos f) chunk_header IndexError) f
               else
                 (let uri = fields ! 1;
                      marker = (if length fields > 2 then Some (fields ! 2) else None)
                  in case read chunk_size f of
                       Inl e \<Rightarrow> Failed e f
                     | Inr (missile, f') \<Rightarrow>
                         if int (length missile) < chunk_size
                         then Raised (UnexpectedEOF (length missile) chunk_size) f'
                         else Yielded
                                (to_s order (HttpAmmo_init uri (self_headers f') ''POST'' (http_ver f') missile),
                                 marker) f')))"

partial_function (option) UriPostReader_loop ::
  "(string set \<Rightarrow> string list) \<Rightarrow> string \<Rightarrow> 'a uri_reader_state_scheme
     \<Rightarrow> 'a uri_reader_state_scheme step option" where
  "UriPostReader_loop order chunk_header f =
     (if chunk_header = [] then Some (Stopped f)
      else (case UriPostReader_body order chunk_header f of
              Continue chunk_header' f' \<Rightarrow> UriPostReader_loop order chunk_header' f'
            | Yielded m f' \<Rightarrow> Some (Yielded m f')
            | Raised e f' \<Rightarrow> Some (Raised e f')
            | Failed e f' \<Rightarrow> Some (Failed e f')
            | Stopped f' \<Rightarrow> Some (Stopped f')))"

definition UriPostReader_advance ::
  "'a uri_reader_state_scheme \<Rightarrow> string \<times> 'a uri_reader_state_scheme" where
  "UriPostReader_advance f =
     (case UriPostReader_read_chunk_header f of (chunk_header, f1) \<Rightarrow>
        (case (if chunk_header = [] then UriPostReader_read_chunk_header (inc_loop_count (seek0 f1))
               else (chunk_header, f1)) of
           (chunk_header', f2) \<Rightarrow> (chunk_header', f2\<lparr>af_position := fpos f2\<rparr>)))"

definition UriPostReader_first ::
  "(string set \<Rightarrow> string list) \<Rightarrow> 'a uri_reader_state_scheme \<Rightarrow> 'a uri_reader_state_scheme step option" where
  "UriPostReader_first order f =
     (case UriPostReader_read_chunk_header (set_af_size (open_file f)) of
        (chunk_header, f') \<Rightarrow> UriPostReader_loop order chunk_header f')"

definition UriPostReader_next ::
  "(string set \<Rightarrow> string list) \<Rightarrow> 'a uri_reader_state_scheme \<Rightarrow> 'a uri_reader_state_scheme step option" where
  "UriPostReader_next order f =
     (case UriPostReader_advance f of
        (chunk_header, f') \<Rightarrow> UriPostReader_loop order chunk_header f')"

definition UriPostReader_draw ::
  "(string set \<Rightarrow> string list) \<Rightarrow> nat \<Rightarrow> 'a uri_reader_state_scheme
     \<Rightarrow> (missile list \<times> 'a uri_reader_state_scheme) option" where
  "UriPostReader_draw order n f = draw (UriPostReader_first order) (UriPostReader_next order) n f"

section \<open>The URI reader: class UriReader\<close>

text \<open>
  \<^verbatim>\<open>for line in ammo_file\<close> inside \<^verbatim>\<open>while True\<close>: the lines one after the other, and at
  the end of the file back to offset 0 with the loop count incremented. A pull runs the scan
  up to the next \<^verbatim>\<open>yield\<close>; over a file with no URI line it never gets there.

  \<open>fpos\<close> is the place the iteration has come to, and \<open>af_position\<close> is set to it,
  which is what \<^verbatim>\<open>tell()\<close> returns for a gzip file. A plain file object of Python 2
  reads ahead while it is iterated and \<^verbatim>\<open>tell()\<close> then reports the end of the block
  read; nothing stated below about this reader or the slow-log reader depends on the
  published position.
\<close>

partial_function (option) UriReader_scan ::
  "(string set \<Rightarrow> string list) \<Rightarrow> 'a uri_reader_state_scheme
     \<Rightarrow> (missile \<times> 'a uri_reader_state_scheme) option" where
  "UriReader_scan order f =
     (case readline f of (line, f1) \<Rightarrow>
        if line = [] then UriReader_scan order (inc_loop_count ((seek0 f1)\<lparr>af_position := 0\<rparr>))
        else (let f2 = f1\<lparr>af_position := fpos f1\<rparr> in
              if startswith line ''[''
              then UriReader_scan order
                     (f2\<lparr>self_headers := insert (strip line header_chars) (self_headers f2)\<rparr>)
              else if length (rstrip line CRLF) \<noteq> 0
              then Some ((to_s order (HttpAmmo_init (rstrip line CRLF) (self_headers f2) ''GET'' (http_ver f2) []),
                          None), f2)
              else UriReader_scan order f2))"

definition UriReader_first ::
  "(string set \<Rightarrow> string list) \<Rightarrow> 'a uri_reader_state_scheme
     \<Rightarrow> (missile \<times> 'a uri_reader_state_scheme) option" where
  "UriReader_first order f = UriReader_scan order (open_file f)"

definition UriReader_next ::
  "(string set \<Rightarrow> string list) \<Rightarrow> 'a uri_reader_state_scheme
     \<Rightarrow> (missile \<times> 'a uri_reader_state_scheme) option" where
  "UriReader_next order f = UriReader_scan order f"

section \<open>The slow-log reader: class SlowLogReader\<close>

record slowlog_state = reader_state +
  request :: string

text \<open>The \<^verbatim>\<open>for\<close> loop inside \<^verbatim>\<open>while True\<close>, up to the next \<^verbatim>\<open>yield\<close>. The variable
  \<^verbatim>\<open>request\<close> is set to the empty string before \<^verbatim>\<open>while True\<close> and after a
  \<^verbatim>\<open>yield\<close>, and nowhere else.\<close>

partial_function (option) SlowLogReader_scan ::
  "'a slowlog_state_scheme \<Rightarrow> (missile \<times> 'a slowlog_state_scheme) option" where
  "SlowLogReader_scan f =
     (case readline f of (line, f1) \<Rightarrow>
        if line = [] then SlowLogReader_scan (inc_loop_count ((seek0 f1)\<lparr>af_position := 0\<rparr>))
        else (let f2 = f1\<lparr>af_position := fpos f1\<rparr> in
              if startswith line ''#''
              then (if request f2 \<noteq> [] then Some ((request f2, None), f2)
                    else SlowLogReader_scan f2)
              else SlowLogReader_scan (f2\<lparr>request := request f2 @ line\<rparr>)))"

definition SlowLogReader_first ::
  "'a slowlog_state_scheme \<Rightarrow> (missile \<times> 'a slowlog_state_scheme) option" where
  "SlowLogReader_first f = SlowLogReader_scan ((set_af_size (open_file f))\<lparr>request := []\<rparr>)"

definition SlowLogReader_next ::
  "'a slowlog_state_scheme \<Rightarrow> (missile \<times> 'a slowlog_state_scheme) option" where
  "SlowLogReader_next f = SlowLogReader_scan (f\<lparr>request := []\<rparr>)"

section \<open>The URI-list generator: class UriStyleGenerator\<close>

text \<open>\<^verbatim>\<open>self.missiles\<close> is \<^verbatim>\<open>cycle\<close> of the rendered requests: the list and the place
  in it.\<close>

record uri_style_state = status +
  uri_count :: nat
  missiles :: "missile list"
  cursor :: nat

definition UriStyleGenerator_init ::
  "(string set \<Rightarrow> string list) \<Rightarrow> string list \<Rightarrow> string list \<Rightarrow> string \<Rightarrow> status \<Rightarrow> uri_style_state" where
  "UriStyleGenerator_init order uris hdrs ver st =
     status.extend st
       (uri_style_state.fields (length uris)
          (map (\<lambda>u. (to_s order (HttpAmmo_init u (set hdrs) ''GET'' ver []), None)) uris) 0)"

text \<open>\<^verbatim>\<open>for m in self.missiles\<close>: the next element of the cycle, none when the list is
  empty.\<close>

definition cycle_next :: "uri_style_state \<Rightarrow> uri_style_state step" where
  "cycle_next g =
     (if missiles g = [] then Stopped g
      else Yielded (missiles g ! (cursor g mod length (missiles g)))
             (g\<lparr>cursor := Suc (cursor g) mod length (missiles g)\<rparr>))"

text \<open>The first pull yields the first request. A later pull first runs the line after the
  \<^verbatim>\<open>yield\<close>: \<^verbatim>\<open>/\<close> between two Python 2 integers is the floor division. There
  has been a \<^verbatim>\<open>yield\<close>, so the list is not empty and \<open>uri_count\<close>, its length, is not
  0.\<close>

definition UriStyleGenerator_first :: "uri_style_state \<Rightarrow> uri_style_state step" where
  "UriStyleGenerator_first g = cycle_next g"

definition UriStyleGenerator_next :: "uri_style_state \<Rightarrow> uri_style_state step" where
  "UriStyleGenerator_next g =
     cycle_next (g\<lparr>loop_count := ammo_count g div int (uri_count g)\<rparr>)"

section \<open>The factory: ComponentFactory.__init__\<close>

text \<open>The values an argument of the constructor can hold, and \<^verbatim>\<open>int(x)\<close> on them:
  \<^verbatim>\<open>int(None)\<close> raises \<^verbatim>\<open>TypeError\<close>, \<^verbatim>\<open>int\<close> of a string strips the white space
  around the number.\<close>

datatype py_value = PyNone | PyInt int | PyStr string

definition int_of :: "py_value \<Rightarrow> py_exception + int" where
  "int_of v =
     (case v of
        PyNone \<Rightarrow> Inl TypeError
      | PyInt n \<Rightarrow> Inr n
      | PyStr s \<Rightarrow>
          (let t = rev (dropWhile isspace (rev (dropWhile isspace s)))
           in case py_int t of None \<Rightarrow> Inl (ValueError s) | Some n \<Rightarrow> Inr n))"

text \<open>The arguments the limits depend on; each is \<open>None\<close>, the default of the signature,
  when the caller leaves it out. \<^verbatim>\<open>not rps_schedule\<close> and \<^verbatim>\<open>self.uris\<close> test for a
  non-empty value.\<close>

record factory_args =
  rps_schedule :: "string list option"
  loop_limit :: py_value
  ammo_limit :: py_value
  uris :: "string list option"

definition defaults :: factory_args where
  "defaults = \<lparr> rps_schedule = None, loop_limit = PyNone, ammo_limit = PyNone, uris = None \<rparr>"

definition truthy :: "string list option \<Rightarrow> bool" where
  "truthy v = (case v of None \<Rightarrow> False | Some xs \<Rightarrow> xs \<noteq> [])"

text \<open>The limits the constructor leaves in \<^verbatim>\<open>info.status\<close>. What it does besides
  (it publishes the number of instances and asks module \<^verbatim>\<open>mark\<close> for the marker
  function) comes after the limits are set and is left out.\<close>

record limits =
  status_loop_limit :: "int option"
  status_ammo_limit :: "int option"

definition ComponentFactory_init :: "factory_args \<Rightarrow> py_exception + limits" where
  "ComponentFactory_init a =
     (case int_of (loop_limit a) of
        Inl e \<Rightarrow> Inl e
      | Inr ll \<Rightarrow>
          (let loop_limit1 = (if ll = - 1 then None else Some ll) in
           case int_of (ammo_limit a) of
             Inl e \<Rightarrow> Inl e
           | Inr al \<Rightarrow>
               (let ammo_limit1 = (if al = - 1 then None else Some al);
                    loop_limit2 = (if loop_limit1 = None \<and> ammo_limit1 = None \<and> \<not> truthy (rps_schedule a)
                                   then Some 1 else loop_limit1)
                in Inr \<lparr> status_loop_limit = loop_limit2,
                         status_ammo_limit =
                           (case (uris a, loop_limit2) of
                              (Some us, Some l) \<Rightarrow>
                                if us \<noteq> [] \<and> l \<noteq> 0 then Some (int (length us) * l)
                                else ammo_limit1
                            | _ \<Rightarrow> ammo_limit1) \<rparr>)))"

section \<open>Reading a result, and the inputs of the examples\<close>

text \<open>The loops that may not return are evaluated through their defining equations.\<close>

declare AmmoFileReader_loop.simps [code]
declare UriPostReader_loop.simps [code]
declare UriReader_scan.simps [code]
declare SlowLogReader_scan.simps [code]

text \<open>The state a step ends in.\<close>

definition step_state :: "'s step \<Rightarrow> 's" where
  "step_state s =
     (case s of Continue _ f \<Rightarrow> f | Yielded _ f \<Rightarrow> f | Raised _ f \<Rightarrow> f | Failed _ f \<Rightarrow> f
      | Stopped f \<Rightarrow> f)"

text \<open>A status sink nobody has written to, and readers on a file with the given bytes
  before the first pull, on a machine that grants a buffer of 4 GiB.\<close>

definition zero_status :: status where
  "zero_status = \<lparr> af_size = 0, af_position = 0, loop_count = 0, ammo_count = 0 \<rparr>"

definition fresh_reader :: "string \<Rightarrow> reader_state" where
  "fresh_reader bytes =
     \<lparr> af_size = 0, af_position = 0, loop_count = 0, ammo_count = 0, fdata = bytes, fpos = 0,
       alloc_max = 4294967296 \<rparr>"

definition fresh_uri_reader :: "string \<Rightarrow> string list \<Rightarrow> string \<Rightarrow> uri_reader_state" where
  "fresh_uri_reader bytes hdrs ver =
     \<lparr> af_size = 0, af_position = 0, loop_count = 0, ammo_count = 0, fdata = bytes, fpos = 0,
       alloc_max = 4294967296, self_headers = set hdrs, http_ver = ver \<rparr>"

definition fresh_slowlog :: "string \<Rightarrow> slowlog_state" where
  "fresh_slowlog bytes =
     \<lparr> af_size = 0, af_position = 0, loop_count = 0, ammo_count = 0, fdata = bytes, fpos = 0,
       alloc_max = 4294967296, request = [] \<rparr>"

text \<open>One way to walk a set: the members in the order of a given list.\<close>

definition order_by :: "string list \<Rightarrow> string set \<Rightarrow> string list" where
  "order_by xs S = filter (\<lambda>h. h \<in> S) (remdups xs)"

text \<open>The URI file of the example, four lines: \<^verbatim>\<open>[X: 1]\<close>, \<^verbatim>\<open>foo\<close>, \<^verbatim>\<open>[Y: 2]\<close>,
  \<^verbatim>\<open>bar\<close>; and the state of a reader on it at a position, with the headers it has
  gathered and the loops it has counted.\<close>

definition uri_example :: string where
  "uri_example = ''[X: 1]'' @ [LF] @ ''foo'' @ [LF] @ ''[Y: 2]'' @ [LF] @ ''bar'' @ [LF]"

definition uri_example_state :: "nat \<Rightarrow> string list \<Rightarrow> int \<Rightarrow> uri_reader_state" where
  "uri_example_state p hdrs loops =
     \<lparr> af_size = 0, af_position = p, loop_count = loops, ammo_count = 0, fdata = uri_example,
       fpos = p, alloc_max = 4294967296, self_headers = set hdrs, http_ver = ''1.1'' \<rparr>"

section \<open>What the specification says of a chunk header\<close>

text \<open>The first field of the header parses as an integer (Python's \<^verbatim>\<open>int\<close> accepts it);
  it parses as a non-negative integer, which is what the specification asks of it; and the
  exception the parse ends in otherwise.\<close>

definition parses_as_integer :: "string \<Rightarrow> bool" where
  "parses_as_integer chunk_header =
     (case split chunk_header of [] \<Rightarrow> False | field0 # _ \<Rightarrow> py_int field0 \<noteq> None)"

definition parses_as_nonnegative :: "string \<Rightarrow> bool" where
  "parses_as_nonnegative chunk_header =
     (case split chunk_header of
        [] \<Rightarrow> False
      | field0 # _ \<Rightarrow> (case py_int field0 of None \<Rightarrow> False | Some n \<Rightarrow> 0 \<le> n))"

definition parse_failure :: "string \<Rightarrow> py_exception" where
  "parse_failure chunk_header =
     (case split chunk_header of [] \<Rightarrow> IndexError | field0 # _ \<Rightarrow> ValueError field0)"

section \<open>Well-formed chunked files\<close>

text \<open>
  A chunked ammo file is a sequence of chunks. A chunk is given by the lines in front of
  its header (the lines \<^verbatim>\<open>read_chunk_header\<close> passes over), the header line with its
  line break, and the payload. The bytes of the file are the chunks one after the other.
\<close>

record chunk =
  lead :: "string list"
  header_line :: string
  payload :: string

definition chunk_text :: "chunk \<Rightarrow> string" where
  "chunk_text c = concat (lead c) @ header_line c @ payload c"

definition file_text :: "chunk list \<Rightarrow> string" where
  "file_text cs = concat (map chunk_text cs)"

text \<open>A line as \<^verbatim>\<open>readline\<close> returns it before the end of the file: it ends in its only
  LF. A blank line is a line that is empty once CR and LF are stripped.\<close>

definition is_line :: "string \<Rightarrow> bool" where
  "is_line l = (l \<noteq> [] \<and> last l = LF \<and> LF \<notin> set (butlast l))"

definition blank_line :: "string \<Rightarrow> bool" where
  "blank_line l = (is_line l \<and> strip l CRLF = [])"

text \<open>The header as the reader sees it, and the record the chunk stands for: the payload,
  and the second field of the header as the marker if there is one.\<close>

definition chunk_header_of :: "chunk \<Rightarrow> string" where
  "chunk_header_of c = strip (header_line c) CRLF"

definition chunk_marker :: "chunk \<Rightarrow> string option" where
  "chunk_marker c =
     (let fields = split (chunk_header_of c)
      in if length fields > 1 then Some (fields ! 1) else None)"

definition chunk_missile :: "chunk \<Rightarrow> missile" where
  "chunk_missile c = (payload c, chunk_marker c)"

text \<open>A valid chunk of the binary format: only blank lines in front of the header, and the
  first field of the header is the length of the payload, which is not empty (a length of
  0 is the restart mark, not a chunk).\<close>

definition valid_chunk :: "chunk \<Rightarrow> bool" where
  "valid_chunk c =
     (list_all blank_line (lead c) \<and> is_line (header_line c) \<and> payload c \<noteq> []
      \<and> (case split (chunk_header_of c) of
            [] \<Rightarrow> False
          | field0 # _ \<Rightarrow> py_int field0 = Some (int (length (payload c)))))"

text \<open>The bytes of the header lines, with the lines passed over in front of them, and the
  bytes of the payloads of a list of chunks.\<close>

definition header_bytes :: "chunk list \<Rightarrow> nat" where
  "header_bytes cs = (\<Sum>c\<leftarrow>cs. length (concat (lead c)) + length (header_line c))"

definition payload_bytes :: "chunk list \<Rightarrow> nat" where
  "payload_bytes cs = (\<Sum>c\<leftarrow>cs. length (payload c))"

text \<open>What the specification calls the bytes consumed after the records of these chunks:
  the lengths of the header lines read plus the chunk sizes read.\<close>

definition bytes_consumed :: "chunk list \<Rightarrow> nat" where
  "bytes_consumed cs = header_bytes cs + payload_bytes cs"

text \<open>Blank lines inserted immediately before the chunk headers: the lines \<open>bss ! i\<close> go
  in front of the header of chunk \<open>i\<close>.\<close>

definition insert_blanks :: "string list list \<Rightarrow> chunk list \<Rightarrow> chunk list" where
  "insert_blanks bss cs = map (\<lambda>(bs, c). c\<lparr>lead := lead c @ bs\<rparr>) (zip bss cs)"

text \<open>A valid chunk of the URI+POST format: in front of the header there are blank lines
  and bracket lines, the header does not start with a bracket and has a second field, the
  URI. The headers its bracket lines add, and the URI and the marker of its header.\<close>

definition uripost_lead_line :: "string \<Rightarrow> bool" where
  "uripost_lead_line l = (is_line l \<and> (startswith l ''['' \<or> strip l CRLF = []))"

definition uripost_valid_chunk :: "chunk \<Rightarrow> bool" where
  "uripost_valid_chunk c =
     (list_all uripost_lead_line (lead c) \<and> is_line (header_line c)
      \<and> \<not> startswith (header_line c) ''['' \<and> payload c \<noteq> []
      \<and> (case split (chunk_header_of c) of
            field0 # _ # _ \<Rightarrow> py_int field0 = Some (int (length (payload c)))
          | _ \<Rightarrow> False))"

definition bracket_headers :: "string list \<Rightarrow> string set" where
  "bracket_headers ls = set (map (\<lambda>l. strip l header_chars) (filter (\<lambda>l. startswith l ''['') ls))"

definition chunk_uri :: "chunk \<Rightarrow> string" where
  "chunk_uri c = split (chunk_header_of c) ! 1"

definition uripost_marker :: "chunk \<Rightarrow> string option" where
  "uripost_marker c =
     (let fields = split (chunk_header_of c)
      in if length fields > 2 then Some (fields ! 2) else None)"

text \<open>Two chunks \<^verbatim>\<open>hi\<close> and \<^verbatim>\<open>abc\<close> with headers \<^verbatim>\<open>2\<close> and \<^verbatim>\<open>3\<close> and no other
  line.\<close>

definition two_chunks :: "chunk list" where
  "two_chunks =
     [\<lparr> lead = [], header_line = ''2'' @ [LF], payload = ''hi'' \<rparr>,
      \<lparr> lead = [], header_line = ''3'' @ [LF], payload = ''abc'' \<rparr>]"

text \<open>The record the URI+POST reader makes of a chunk when \<^verbatim>\<open>self.headers\<close> is
  \<open>hs\<close>.\<close>

definition uripost_missile :: "(string set \<Rightarrow> string list) \<Rightarrow> string set \<Rightarrow> string \<Rightarrow> chunk \<Rightarrow> missile" where
  "uripost_missile order hs ver c =
     (to_s order (HttpAmmo_init (chunk_uri c) hs ''POST'' ver (payload c)), uripost_marker c)"

text \<open>
  A file may end in a restart mark: a header whose size field parses to 0, behind which the
  reader never reads. The mark is given as a chunk too: the lines in front of it, its header
  line, and as payload whatever bytes follow in the file. A whole file is its chunks and
  the mark it ends in, if any.
\<close>

definition restart_mark :: "chunk \<Rightarrow> bool" where
  "restart_mark z =
     (list_all blank_line (lead z) \<and> is_line (header_line z)
      \<and> (case split (chunk_header_of z) of
            [] \<Rightarrow> False
          | field0 # _ \<Rightarrow> py_int field0 = Some 0))"

record ammo =
  chunks :: "chunk list"
  restart :: "chunk option"

definition restart_text :: "chunk option \<Rightarrow> string" where
  "restart_text r = (case r of None \<Rightarrow> [] | Some z \<Rightarrow> chunk_text z)"

definition ammo_text :: "ammo \<Rightarrow> string" where
  "ammo_text a = file_text (chunks a) @ restart_text (restart a)"

text \<open>A valid file of the binary format has at least one chunk; without one the generator
  stops or goes round for ever without a record.\<close>

definition valid_ammo :: "ammo \<Rightarrow> bool" where
  "valid_ammo a =
     (chunks a \<noteq> [] \<and> list_all valid_chunk (chunks a)
      \<and> (case restart a of None \<Rightarrow> True | Some z \<Rightarrow> restart_mark z))"

text \<open>Blank lines inserted immediately before the chunk headers of a file, \<open>mbs\<close> before
  the header of its restart mark.\<close>

definition with_blanks :: "string list list \<Rightarrow> string list \<Rightarrow> ammo \<Rightarrow> ammo" where
  "with_blanks bss mbs a =
     \<lparr> chunks = insert_blanks bss (chunks a),
       restart = map_option (\<lambda>z. z\<lparr>lead := lead z @ mbs\<rparr>) (restart a) \<rparr>"

text \<open>The same for the URI+POST format, where bracket lines may stand in front of the mark.
  The headers gathered on the way to record \<open>j\<close> (counted from 0) are those of the bracket
  lines in front of its chunk and, when the reader has just started over, of those in front
  of the mark; \<open>headers_until\<close> is \<^verbatim>\<open>self.headers\<close> when record \<open>m\<close> is rendered.\<close>

definition uripost_restart_mark :: "chunk \<Rightarrow> bool" where
  "uripost_restart_mark z =
     (list_all uripost_lead_line (lead z) \<and> is_line (header_line z)
      \<and> \<not> startswith (header_line z) ''[''
      \<and> (case split (chunk_header_of z) of
            [] \<Rightarrow> False
          | field0 # _ \<Rightarrow> py_int field0 = Some 0))"

definition uripost_valid_ammo :: "ammo \<Rightarrow> bool" where
  "uripost_valid_ammo a =
     (chunks a \<noteq> [] \<and> list_all uripost_valid_chunk (chunks a)
      \<and> (case restart a of None \<Rightarrow> True | Some z \<Rightarrow> uripost_restart_mark z))"

definition restart_headers :: "ammo \<Rightarrow> string set" where
  "restart_headers a = (case restart a of None \<Rightarrow> {} | Some z \<Rightarrow> bracket_headers (lead z))"

definition lead_headers :: "ammo \<Rightarrow> nat \<Rightarrow> string set" where
  "lead_headers a j =
     bracket_headers (lead (chunks a ! (j mod length (chunks a))))
       \<union> (if 0 < j \<and> j mod length (chunks a) = 0 then restart_headers a else {})"

definition headers_until :: "ammo \<Rightarrow> string set \<Rightarrow> nat \<Rightarrow> string set" where
  "headers_until a hs m = hs \<union> (\<Union>j\<le>m. lead_headers a j)"

text \<open>The inputs of the examples: two chunks of the URI+POST format, the first behind a
  bracket line; a blank line for each of two chunk headers, a bare LF and a CR LF; and two
  files that end in a restart mark.\<close>

definition post_chunks :: "chunk list" where
  "post_chunks =
     [\<lparr> lead = [''[X: 1]'' @ [LF]], header_line = ''2 /a'' @ [LF], payload = ''hi'' \<rparr>,
      \<lparr> lead = [], header_line = ''3 /b tag'' @ [LF], payload = ''abc'' \<rparr>]"

definition two_blanks :: "string list list" where
  "two_blanks = [[[LF]], [[CR, LF]]]"

definition binary_ammo :: ammo where
  "binary_ammo =
     \<lparr> chunks = two_chunks,
       restart = Some \<lparr> lead = [], header_line = ''0'' @ [LF], payload = ''never read'' \<rparr> \<rparr>"

definition post_ammo :: ammo where
  "post_ammo =
     \<lparr> chunks = post_chunks,
       restart = Some \<lparr> lead = [''[Y: 2]'' @ [LF]], header_line = ''0'' @ [LF], payload = [] \<rparr> \<rparr>"

section \<open>Properties of the request builder\<close>

lemma join_sep: "xs \<noteq> [] \<Longrightarrow> join sep xs @ sep = concat (map (\<lambda>h. h @ sep) xs)"
  by (induction sep xs rule: join.induct) auto

lemma count_list_distinct: "distinct xs \<Longrightarrow> x \<in> set xs \<Longrightarrow> count_list xs x = 1"
  by (induction xs) (auto simp: count_list_0_iff)

lemma singleton_list: "set xs = {a} \<Longrightarrow> distinct xs \<Longrightarrow> xs = [a]"
proof (cases xs)
  case Nil
  assume "set xs = {a}"
  with Nil show ?thesis by simp
next
  case (Cons x ys)
  assume s: "set xs = {a}" and d: "distinct xs"
  from s Cons have x: "x = a" by auto
  have "set ys \<subseteq> {a}" using s Cons by auto
  moreover have "a \<notin> set ys" using d Cons x by simp
  ultimately have "ys = []" by (cases ys) auto
  then show ?thesis using Cons x by simp
qed

lemma to_s_headers:
  "headers a \<noteq> {} \<Longrightarrow> set (order (headers a)) = headers a \<Longrightarrow>
   to_s order a = http_method a @ '' '' @ uri a @ '' '' @ proto a @ CRLF
      @ concat (map (\<lambda>h. h @ CRLF) (header_lines order a)) @ CRLF @ body a"
  by (cases "order (headers a) = []") (auto simp: to_s_def header_lines_def join_sep)

lemma pair_list:
  assumes "set xs = {a, b}" and "distinct xs" and "a \<noteq> b"
  shows "xs = [a, b] \<or> xs = [b, a]"
proof (cases xs)
  case Nil
  with assms(1) show ?thesis by simp
next
  case (Cons x ys)
  have x: "x = a \<or> x = b"
    using assms(1) Cons by auto
  have d: "x \<notin> set ys" "distinct ys"
    using assms(2) Cons by simp_all
  show ?thesis
  proof (cases "x = a")
    case True
    have "set ys = {b}"
      using assms(1,3) Cons True d(1) by auto
    then have "ys = [b]"
      using d(2) by (rule singleton_list)
    then show ?thesis
      using Cons True by simp
  next
    case False
    then have xb: "x = b"
      using x by simp
    have "set ys = {a}"
      using assms(1,3) Cons xb d(1) by auto
    then have "ys = [a]"
      using d(2) by (rule singleton_list)
    then show ?thesis
      using Cons xb by simp
  qed
qed

text \<open>A request without a body, byte by byte: the request line, one line for each header
  in the order the set is walked, and the blank line.\<close>

lemma to_s_no_body:
  assumes "lists_set order S"
  shows "to_s order (HttpAmmo_init u S m ver []) =
           m @ '' '' @ u @ '' HTTP/'' @ ver @ CRLF @ concat (map (\<lambda>h. h @ CRLF) (order S)) @ CRLF"
proof (cases "S = {}")
  case True
  then have "order S = []"
    using assms by (simp add: lists_set_def)
  then show ?thesis
    using True by (simp add: to_s_def HttpAmmo_init_def)
next
  case False
  let ?a = "HttpAmmo_init u S m ver []"
  have h: "headers ?a = S"
    by (simp add: HttpAmmo_init_def)
  have "to_s order ?a = http_method ?a @ '' '' @ uri ?a @ '' '' @ proto ?a @ CRLF
      @ concat (map (\<lambda>h. h @ CRLF) (header_lines order ?a)) @ CRLF @ body ?a"
    using False assms by (intro to_s_headers) (simp_all add: h lists_set_def)
  then show ?thesis
    by (simp add: HttpAmmo_init_def header_lines_def)
qed

text \<open>
  C6: for every method, URI, protocol version, header list and non-empty body, the header
  \<^verbatim>\<open>Content-Length: <length of the body>\<close> is among the header lines of the rendered
  request exactly once, whatever the order the set is walked in; the request is the
  request line, these header lines, the blank line and the body. (A header line is a member
  of the header set; headers are told apart as strings.) In particular
  \<^verbatim>\<open>HttpAmmo("/", [], method="POST", body="hi")\<close> renders as the request line,
  \<^verbatim>\<open>Content-Length: 2\<close>, the blank line and \<^verbatim>\<open>hi\<close>.
\<close>

theorem HttpAmmo_content_length_once:
  assumes "b \<noteq> []"
    and "lists_set order (headers (HttpAmmo_init u (set hs) m ver b))"
    and "lists_set order {''Content-Length: 2''}"
  shows "count_list (header_lines order (HttpAmmo_init u (set hs) m ver b))
           (''Content-Length: '' @ str (length b)) = 1
       \<and> to_s order (HttpAmmo_init u (set hs) m ver b) =
           m @ '' '' @ u @ '' HTTP/'' @ ver @ CRLF
             @ concat (map (\<lambda>h. h @ CRLF) (header_lines order (HttpAmmo_init u (set hs) m ver b)))
             @ CRLF @ b
       \<and> to_s order (HttpAmmo_init ''/'' (set []) ''POST'' ''1.1'' ''hi'') =
           ''POST / HTTP/1.1'' @ CRLF @ ''Content-Length: 2'' @ CRLF @ CRLF @ ''hi''"
proof (intro conjI)
  let ?a = "HttpAmmo_init u (set hs) m ver b"
  have mem: "content_length b \<in> headers ?a"
    using assms(1) by (simp add: HttpAmmo_init_def)
  show "count_list (header_lines order ?a) (''Content-Length: '' @ str (length b)) = 1"
    using assms(2) mem
    by (simp add: lists_set_def header_lines_def count_list_distinct content_length_def)
  have "to_s order ?a = http_method ?a @ '' '' @ uri ?a @ '' '' @ proto ?a @ CRLF
      @ concat (map (\<lambda>h. h @ CRLF) (header_lines order ?a)) @ CRLF @ body ?a"
    using mem assms(2) by (intro to_s_headers) (auto simp: lists_set_def)
  then show "to_s order ?a = m @ '' '' @ u @ '' HTTP/'' @ ver @ CRLF
             @ concat (map (\<lambda>h. h @ CRLF) (header_lines order ?a)) @ CRLF @ b"
    by (simp add: HttpAmmo_init_def)
  have cl: "content_length ''hi'' = ''Content-Length: 2''"
    by code_simp
  have "order {''Content-Length: 2''} = [''Content-Length: 2'']"
    using assms(3) by (simp add: lists_set_def singleton_list)
  then show "to_s order (HttpAmmo_init ''/'' (set []) ''POST'' ''1.1'' ''hi'') =
           ''POST / HTTP/1.1'' @ CRLF @ ''Content-Length: 2'' @ CRLF @ CRLF @ ''hi''"
    by (simp add: to_s_def HttpAmmo_init_def cl)
qed

theorem HttpAmmo_content_length_once_witness:
  "count_list (header_lines (\<lambda>S. [''Content-Length: 2'']) (HttpAmmo_init ''/'' (set []) ''POST'' ''1.1'' ''hi''))
           (''Content-Length: '' @ str (length ''hi'')) = 1
   \<and> to_s (\<lambda>S. [''Content-Length: 2'']) (HttpAmmo_init ''/'' (set []) ''POST'' ''1.1'' ''hi'') =
           ''POST / HTTP/1.1'' @ CRLF @ ''Content-Length: 2'' @ CRLF @ CRLF @ ''hi''"
proof -
  have cl: "content_length ''hi'' = ''Content-Length: 2''"
    by code_simp
  have h1: "''hi'' \<noteq> []"
    by simp
  have h2: "lists_set (\<lambda>S. [''Content-Length: 2'']) (headers (HttpAmmo_init ''/'' (set []) ''POST'' ''1.1'' ''hi''))"
    by (simp add: lists_set_def HttpAmmo_init_def cl)
  have h3: "lists_set (\<lambda>S. [''Content-Length: 2'']) {''Content-Length: 2''}"
    by (simp add: lists_set_def)
  show ?thesis
    using HttpAmmo_content_length_once [OF h1 h2 h3] by (elim conjE) (intro conjI, assumption+)
qed

section \<open>Properties of the chunked readers, one header at a time\<close>

lemma split_Cons_nonempty: "split h = x # xs \<Longrightarrow> h \<noteq> []"
  by (auto simp: split_def)

lemma restart_state: "inc_loop_count (seek0 f) = f\<lparr>fpos := 0, loop_count := loop_count f + 1\<rparr>"
  by (simp add: inc_loop_count_def seek0_def)

text \<open>
  C1: whatever the file and the position, when the chunked binary reader or the URI+POST
  reader has read a header whose size field parses to 0, the turn of the loop ends in
  \<^verbatim>\<open>continue\<close> and not in a \<^verbatim>\<open>yield\<close>: no record is emitted. The state it goes on
  with is the one reached by seeking to offset 0, incrementing the loop count and reading
  the next header from there, so no body byte is read behind the header.
\<close>

theorem zero_chunk_restarts:
  assumes "split chunk_header = field0 # rest" and "py_int field0 = Some 0"
  shows "AmmoFileReader_body chunk_header f =
           Continue (fst (read_chunk_header (f\<lparr>fpos := 0, loop_count := loop_count f + 1\<rparr>)))
                    (snd (read_chunk_header (f\<lparr>fpos := 0, loop_count := loop_count f + 1\<rparr>)))
       \<and> AmmoFileReader_loop chunk_header f =
           AmmoFileReader_loop
             (fst (read_chunk_header (f\<lparr>fpos := 0, loop_count := loop_count f + 1\<rparr>)))
             (snd (read_chunk_header (f\<lparr>fpos := 0, loop_count := loop_count f + 1\<rparr>)))
       \<and> UriPostReader_body order chunk_header g =
           Continue (fst (UriPostReader_read_chunk_header (g\<lparr>fpos := 0, loop_count := loop_count g + 1\<rparr>)))
                    (snd (UriPostReader_read_chunk_header (g\<lparr>fpos := 0, loop_count := loop_count g + 1\<rparr>)))
       \<and> UriPostReader_loop order chunk_header g =
           UriPostReader_loop order
             (fst (UriPostReader_read_chunk_header (g\<lparr>fpos := 0, loop_count := loop_count g + 1\<rparr>)))
             (snd (UriPostReader_read_chunk_header (g\<lparr>fpos := 0, loop_count := loop_count g + 1\<rparr>)))"
proof -
  have ne: "chunk_header \<noteq> []"
    using assms(1) by (rule split_Cons_nonempty)
  have a: "AmmoFileReader_body chunk_header f =
           Continue (fst (read_chunk_header (f\<lparr>fpos := 0, loop_count := loop_count f + 1\<rparr>)))
                    (snd (read_chunk_header (f\<lparr>fpos := 0, loop_count := loop_count f + 1\<rparr>)))"
    using assms by (simp add: AmmoFileReader_body_def restart_state split_beta)
  have u: "UriPostReader_body order chunk_header g =
           Continue (fst (UriPostReader_read_chunk_header (g\<lparr>fpos := 0, loop_count := loop_count g + 1\<rparr>)))
                    (snd (UriPostReader_read_chunk_header (g\<lparr>fpos := 0, loop_count := loop_count g + 1\<rparr>)))"
    using assms by (simp add: UriPostReader_body_def restart_state split_beta)
  show ?thesis
    using a u ne
    by (simp add: AmmoFileReader_loop.simps [of chunk_header f]
        UriPostReader_loop.simps [of order chunk_header g])
qed

theorem zero_chunk_restarts_witness:
  "AmmoFileReader_body ''0'' ((fresh_reader (''2'' @ [LF] @ ''hi0'' @ [LF]))\<lparr>fpos := 6\<rparr>) =
     Continue ''2'' ((fresh_reader (''2'' @ [LF] @ ''hi0'' @ [LF]))\<lparr>fpos := 2, loop_count := 1\<rparr>)
   \<and> AmmoFileReader_loop ''0'' ((fresh_reader (''2'' @ [LF] @ ''hi0'' @ [LF]))\<lparr>fpos := 6\<rparr>) =
     Some (Yielded (''hi'', None)
            ((fresh_reader (''2'' @ [LF] @ ''hi0'' @ [LF]))\<lparr>fpos := 4, loop_count := 1\<rparr>))
   \<and> UriPostReader_body (order_by [])
        ''0'' ((fresh_uri_reader (''2 /u'' @ [LF] @ ''hi0'' @ [LF]) [] ''1.1'')\<lparr>fpos := 9\<rparr>) =
     Continue ''2 /u''
       ((fresh_uri_reader (''2 /u'' @ [LF] @ ''hi0'' @ [LF]) [] ''1.1'')\<lparr>fpos := 5, loop_count := 1\<rparr>)"
proof -
  let ?f = "(fresh_reader (''2'' @ [LF] @ ''hi0'' @ [LF]))\<lparr>fpos := 6\<rparr>"
  let ?g = "(fresh_uri_reader (''2 /u'' @ [LF] @ ''hi0'' @ [LF]) [] ''1.1'')\<lparr>fpos := 9\<rparr>"
  have h1: "split ''0'' = ''0'' # []"
    by code_simp
  have h2: "py_int ''0'' = Some 0"
    by code_simp
  have r: "read_chunk_header (?f\<lparr>fpos := 0, loop_count := loop_count ?f + 1\<rparr>) =
             (''2'', (fresh_reader (''2'' @ [LF] @ ''hi0'' @ [LF]))\<lparr>fpos := 2, loop_count := 1\<rparr>)"
    by code_simp
  have l: "AmmoFileReader_loop ''2'' ((fresh_reader (''2'' @ [LF] @ ''hi0'' @ [LF]))\<lparr>fpos := 2, loop_count := 1\<rparr>) =
     Some (Yielded (''hi'', None)
            ((fresh_reader (''2'' @ [LF] @ ''hi0'' @ [LF]))\<lparr>fpos := 4, loop_count := 1\<rparr>))"
    by code_simp
  have u: "UriPostReader_read_chunk_header (?g\<lparr>fpos := 0, loop_count := loop_count ?g + 1\<rparr>) =
             (''2 /u'', (fresh_uri_reader (''2 /u'' @ [LF] @ ''hi0'' @ [LF]) [] ''1.1'')\<lparr>fpos := 5, loop_count := 1\<rparr>)"
    by code_simp
  show ?thesis
    using zero_chunk_restarts [OF h1 h2, of ?f "order_by []" ?g]
    unfolding r u fst_conv snd_conv l by (elim conjE) (intro conjI, assumption+)
qed

text \<open>What \<^verbatim>\<open>read\<close> does with a size above the bytes that are left.\<close>

lemma read_short:
  assumes "int (length (fdata f) - fpos f) < n" and "n \<le> C_LONG_MAX" and "n \<le> alloc_max f"
  shows "read n f = Inr (drop (fpos f) (fdata f), f\<lparr>fpos := fpos f + (length (fdata f) - fpos f)\<rparr>)"
  using assms by (simp add: read_def Let_def)

lemma read_overflow:
  assumes "int (length (fdata f) - fpos f) < n" and "C_LONG_MAX < n"
  shows "read n f = Inl OverflowError"
  using assms by (simp add: read_def Let_def)

lemma read_no_memory:
  assumes "int (length (fdata f) - fpos f) < n" and "n \<le> C_LONG_MAX" and "alloc_max f < n"
  shows "read n f = Inl MemoryError"
  using assms by (simp add: read_def Let_def)

text \<open>A declared size beyond the bytes left that \<^verbatim>\<open>read\<close> refuses: the exception of
  \<^verbatim>\<open>read\<close> leaves the reader, and it is not \<^verbatim>\<open>AmmoFileError\<close>.\<close>

lemma refused_chunk_fails:
  assumes "split chunk_header = field0 # rest" and "py_int field0 = Some n"
    and "int (length (fdata f) - fpos f) < n" and "C_LONG_MAX < n \<or> alloc_max f < n"
  shows "AmmoFileReader_loop chunk_header f =
           Some (Failed (if C_LONG_MAX < n then OverflowError else MemoryError) f)"
proof -
  have ne: "chunk_header \<noteq> []"
    using assms(1) by (rule split_Cons_nonempty)
  have n: "n \<noteq> 0"
    using assms(3) by linarith
  have r: "read n f = Inl (if C_LONG_MAX < n then OverflowError else MemoryError)"
    using assms(3,4) read_overflow [of f n] read_no_memory [of f n] by auto
  have "AmmoFileReader_body chunk_header f =
          Failed (if C_LONG_MAX < n then OverflowError else MemoryError) f"
    using assms(1,2) n by (simp add: AmmoFileReader_body_def r)
  then show ?thesis
    using ne by (simp add: AmmoFileReader_loop.simps [of chunk_header f])
qed

text \<open>
  C2, as the code has it: when the size a chunk header declares is greater than the number
  of bytes left in the file behind the header, and is one that \<^verbatim>\<open>read\<close> accepts (it fits
  a C long and a buffer of that size is granted), the chunked binary reader raises
  \<^verbatim>\<open>AmmoFileError\<close> with the number of bytes read (all that were left) and the number
  expected; the turn of the loop ends in the error and yields no record. The URI+POST
  reader does the same when the header has its URI field.
\<close>

theorem truncated_chunk_raises:
  assumes "split chunk_header = field0 # rest" and "py_int field0 = Some n"
    and "int (length (fdata f) - fpos f) < n" and "int (length (fdata g) - fpos g) < n"
    and "n \<le> C_LONG_MAX" and "n \<le> alloc_max f" and "n \<le> alloc_max g"
  shows "AmmoFileReader_body chunk_header f =
           Raised (UnexpectedEOF (length (fdata f) - fpos f) n)
                  (f\<lparr>fpos := fpos f + (length (fdata f) - fpos f)\<rparr>)
       \<and> AmmoFileReader_loop chunk_header f =
           Some (Raised (UnexpectedEOF (length (fdata f) - fpos f) n)
                  (f\<lparr>fpos := fpos f + (length (fdata f) - fpos f)\<rparr>))
       \<and> (rest \<noteq> [] \<longrightarrow>
            UriPostReader_loop order chunk_header g =
              Some (Raised (UnexpectedEOF (length (fdata g) - fpos g) n)
                     (g\<lparr>fpos := fpos g + (length (fdata g) - fpos g)\<rparr>)))"
proof -
  have ne: "chunk_header \<noteq> []"
    using assms(1) by (rule split_Cons_nonempty)
  have n: "n \<noteq> 0" "\<not> n < 0" "length (fdata f) - fpos f \<le> nat n" "length (fdata g) - fpos g \<le> nat n"
    using assms(3,4) by linarith+
  have r: "read n f = Inr (drop (fpos f) (fdata f), f\<lparr>fpos := fpos f + (length (fdata f) - fpos f)\<rparr>)"
    using assms(3,5,6) by (rule read_short)
  have b: "AmmoFileReader_body chunk_header f =
           Raised (UnexpectedEOF (length (fdata f) - fpos f) n)
                  (f\<lparr>fpos := fpos f + (length (fdata f) - fpos f)\<rparr>)"
    using assms(1-4) n by (simp add: AmmoFileReader_body_def r)
  have rg: "read n g = Inr (drop (fpos g) (fdata g), g\<lparr>fpos := fpos g + (length (fdata g) - fpos g)\<rparr>)"
    using assms(4,5,7) by (rule read_short)
  have u: "UriPostReader_body order chunk_header g =
           Raised (UnexpectedEOF (length (fdata g) - fpos g) n)
                  (g\<lparr>fpos := fpos g + (length (fdata g) - fpos g)\<rparr>)" if "rest \<noteq> []"
    using assms(1-4) n that by (simp add: UriPostReader_body_def rg)
  show ?thesis
    using b u ne
    by (simp add: AmmoFileReader_loop.simps [of chunk_header f]
        UriPostReader_loop.simps [of order chunk_header g])
qed

text \<open>
  C2 as stated fails at the header \<^verbatim>\<open>9223372036854775808\<close>, which is \<open>2 ^ 63\<close>, in front
  of the three bytes \<^verbatim>\<open>abc\<close>: the size is greater than the bytes left, but it does not
  fit a C long, so \<^verbatim>\<open>read\<close> raises \<^verbatim>\<open>OverflowError\<close> before it reads; the handler
  catches \<^verbatim>\<open>IndexError\<close> and \<^verbatim>\<open>ValueError\<close> only, and what leaves the reader on its
  first pull is that exception and not \<^verbatim>\<open>AmmoFileError\<close>.
\<close>

theorem oversized_chunk_counterexample:
  "py_int ''9223372036854775808'' = Some 9223372036854775808
   \<and> int (length ''abc'') < 9223372036854775808
   \<and> AmmoFileReader_first (fresh_reader (''9223372036854775808'' @ [LF] @ ''abc'')) =
       Some (Failed OverflowError
              ((fresh_reader (''9223372036854775808'' @ [LF] @ ''abc''))\<lparr>af_size := 23, fpos := 20\<rparr>))
   \<and> AmmoFileReader_first (fresh_reader (''9223372036854775808'' @ [LF] @ ''abc'')) \<noteq>
       Some (Raised (UnexpectedEOF 3 9223372036854775808)
              ((fresh_reader (''9223372036854775808'' @ [LF] @ ''abc''))\<lparr>af_size := 23, fpos := 23\<rparr>))"
proof -
  let ?F = "fresh_reader (''9223372036854775808'' @ [LF] @ ''abc'')"
  let ?S = "?F\<lparr>af_size := 23, fpos := 20\<rparr>"
  have h: "read_chunk_header (set_af_size (open_file ?F)) = (''9223372036854775808'', ?S)"
    by code_simp
  have sp: "split ''9223372036854775808'' = ''9223372036854775808'' # []"
    by code_simp
  have p: "py_int ''9223372036854775808'' = Some 9223372036854775808"
    by (simp add: py_int_def unsigned_def digits_val_def digit_val_def isdigit_def)
  have r: "int (length (fdata ?S) - fpos ?S) < 9223372036854775808"
    by (simp add: fresh_reader_def)
  have o: "C_LONG_MAX < 9223372036854775808 \<or> alloc_max ?S < 9223372036854775808"
    by (simp add: C_LONG_MAX_def)
  have "AmmoFileReader_loop ''9223372036854775808'' ?S = Some (Failed OverflowError ?S)"
    using refused_chunk_fails [OF sp p r o] by (simp add: C_LONG_MAX_def)
  then have f: "AmmoFileReader_first ?F = Some (Failed OverflowError ?S)"
    unfolding AmmoFileReader_first_def h by simp
  show ?thesis
    unfolding f using p by simp
qed

theorem truncated_chunk_raises_witness:
  "AmmoFileReader_loop ''5 tag'' ((fresh_reader (''5 tag'' @ [LF] @ ''abc''))\<lparr>fpos := 6\<rparr>) =
     Some (Raised (UnexpectedEOF 3 5) ((fresh_reader (''5 tag'' @ [LF] @ ''abc''))\<lparr>fpos := 9\<rparr>))
   \<and> UriPostReader_loop (order_by [])
        ''5 tag'' ((fresh_uri_reader (''5 tag'' @ [LF] @ ''abc'') [] ''1.1'')\<lparr>fpos := 6\<rparr>) =
     Some (Raised (UnexpectedEOF 3 5)
            ((fresh_uri_reader (''5 tag'' @ [LF] @ ''abc'') [] ''1.1'')\<lparr>fpos := 9\<rparr>))"
proof -
  let ?f = "(fresh_reader (''5 tag'' @ [LF] @ ''abc''))\<lparr>fpos := 6\<rparr>"
  let ?g = "(fresh_uri_reader (''5 tag'' @ [LF] @ ''abc'') [] ''1.1'')\<lparr>fpos := 6\<rparr>"
  have h1: "split ''5 tag'' = ''5'' # [''tag'']"
    by code_simp
  have h2: "py_int ''5'' = Some 5"
    by code_simp
  have h3: "int (length (fdata ?f) - fpos ?f) < 5"
    by (simp add: fresh_reader_def)
  have h4: "int (length (fdata ?g) - fpos ?g) < 5"
    by (simp add: fresh_uri_reader_def)
  have h5: "[''tag''] \<noteq> []"
    by simp
  have h6: "(5::int) \<le> C_LONG_MAX"
    by (simp add: C_LONG_MAX_def)
  have h7: "5 \<le> alloc_max ?f"
    by (simp add: fresh_reader_def)
  have h8: "5 \<le> alloc_max ?g"
    by (simp add: fresh_uri_reader_def)
  have n: "length (fdata ?f) - fpos ?f = 3" "length (fdata ?g) - fpos ?g = 3"
    by (simp_all add: fresh_reader_def fresh_uri_reader_def)
  have s: "?f\<lparr>fpos := fpos ?f + 3\<rparr> = (fresh_reader (''5 tag'' @ [LF] @ ''abc''))\<lparr>fpos := 9\<rparr>"
    "?g\<lparr>fpos := fpos ?g + 3\<rparr> = (fresh_uri_reader (''5 tag'' @ [LF] @ ''abc'') [] ''1.1'')\<lparr>fpos := 9\<rparr>"
    by simp_all
  note t = truncated_chunk_raises [OF h1 h2 h3 h4 h6 h7 h8, of "order_by []"]
  show ?thesis
    using t [THEN conjunct2, THEN conjunct1] t [THEN conjunct2, THEN conjunct2, THEN mp, OF h5]
    unfolding n s by (intro conjI)
qed

text \<open>
  C3, as the code has it: for every non-empty chunk header whose first field is missing or
  is not accepted by \<^verbatim>\<open>int\<close>, the chunked binary reader raises \<^verbatim>\<open>AmmoFileError\<close> with
  the byte offset, the header and the parse failure, emits no record and leaves the state
  as it was.
\<close>

theorem malformed_header_raises:
  assumes "chunk_header \<noteq> []" and "\<not> parses_as_integer chunk_header"
  shows "AmmoFileReader_loop chunk_header f =
           Some (Raised (HeaderError (fpos f) chunk_header (parse_failure chunk_header)) f)"
  using assms
  by (simp add: AmmoFileReader_loop.simps [of chunk_header f] AmmoFileReader_body_def
      parses_as_integer_def parse_failure_def split: list.splits option.splits)

text \<open>
  C3 as stated fails at the header \<^verbatim>\<open>-5\<close>: the field is not a non-negative integer, yet
  no error is raised; \<^verbatim>\<open>read(-5)\<close> returns the rest of the file, which is yielded as a
  record.
\<close>

theorem negative_size_counterexample:
  "\<not> parses_as_nonnegative ''-5''
   \<and> AmmoFileReader_loop ''-5'' ((fresh_reader (''-5'' @ [LF] @ ''abc'')) \<lparr>fpos := 3\<rparr>) =
       Some (Yielded (''abc'', None) ((fresh_reader (''-5'' @ [LF] @ ''abc'')) \<lparr>fpos := 6\<rparr>))"
  by code_simp

theorem malformed_header_raises_witness:
  "AmmoFileReader_loop ''abc 1'' (fresh_reader (''abc 1'' @ [LF])\<lparr>fpos := 6\<rparr>) =
     Some (Raised (HeaderError 6 ''abc 1'' (ValueError ''abc''))
            (fresh_reader (''abc 1'' @ [LF])\<lparr>fpos := 6\<rparr>))"
proof -
  have h1: "''abc 1'' \<noteq> []"
    by simp
  have h2: "\<not> parses_as_integer ''abc 1''"
    by code_simp
  have p: "parse_failure ''abc 1'' = ValueError ''abc''"
    by code_simp
  have q: "fpos (fresh_reader (''abc 1'' @ [LF])\<lparr>fpos := 6\<rparr>) = 6"
    by simp
  show ?thesis
    using malformed_header_raises [OF h1 h2, of "fresh_reader (''abc 1'' @ [LF])\<lparr>fpos := 6\<rparr>"]
    unfolding p q .
qed

section \<open>The chunked binary reader over a well-formed file\<close>


lemma readline_line:
  assumes "is_line l" and "drop (fpos f) (fdata f) = l @ rest"
  shows "readline f = (l, f\<lparr>fpos := fpos f + length l\<rparr>)"
proof -
  from assms(1) have "l \<noteq> []" and "last l = LF" and nl: "\<forall>c\<in>set (butlast l). c \<noteq> LF"
    by (auto simp: is_line_def)
  then have l: "l = butlast l @ [LF]"
    by (metis append_butlast_last_id)
  have d: "drop (fpos f) (fdata f) = butlast l @ LF # rest"
    using assms(2) l by (metis append_Cons append_Nil append_assoc)
  have t: "takeWhile (\<lambda>c. c \<noteq> LF) (butlast l @ LF # rest) = butlast l"
    using nl by (simp add: takeWhile_tail)
  have w: "dropWhile (\<lambda>c. c \<noteq> LF) (butlast l @ LF # rest) = LF # rest"
    using nl by (simp add: dropWhile_append3)
  have "takeWhile (\<lambda>c. c \<noteq> LF) (drop (fpos f) (fdata f))
          @ take 1 (dropWhile (\<lambda>c. c \<noteq> LF) (drop (fpos f) (fdata f))) = l"
    unfolding d t w using l by simp
  then show ?thesis
    unfolding readline_def Let_def by (simp only:)
qed

lemma readline_eof: "length (fdata f) \<le> fpos f \<Longrightarrow> readline f = ([], f)"
  by (simp add: readline_def)

lemma drop_advance:
  "drop p xs = a @ rest \<Longrightarrow> drop (p + length a) xs = rest"
  by (metis add.commute append_eq_conv_conj drop_drop)

lemma read_chunk_header_eof:
  "length (fdata f) \<le> fpos f \<Longrightarrow> read_chunk_header f = ([], f)"
  by (subst read_chunk_header.simps) (simp add: readline_eof)

lemma read_chunk_header_blanks:
  "list_all blank_line bs \<Longrightarrow> drop (fpos f) (fdata f) = concat bs @ rest \<Longrightarrow>
   read_chunk_header f = read_chunk_header (f\<lparr>fpos := fpos f + length (concat bs)\<rparr>)"
proof (induction bs arbitrary: f)
  case Nil
  then show ?case by simp
next
  case (Cons b bs)
  from Cons.prems(1) have "blank_line b" and bs: "list_all blank_line bs"
    by simp_all
  then have b: "is_line b" "strip b CRLF = []"
    by (simp_all add: blank_line_def)
  have d: "drop (fpos f) (fdata f) = b @ (concat bs @ rest)"
    using Cons.prems(2) by simp
  let ?f1 = "f\<lparr>fpos := fpos f + length b\<rparr>"
  have r: "readline f = (b, ?f1)"
    using b(1) d by (rule readline_line)
  have ne: "b \<noteq> []"
    using b(1) by (simp add: is_line_def)
  have step: "read_chunk_header f = read_chunk_header ?f1"
    by (subst read_chunk_header.simps) (simp add: r ne b(2))
  have "drop (fpos ?f1) (fdata ?f1) = concat bs @ rest"
    using drop_advance [OF d] by simp
  from Cons.IH [OF bs this] have "read_chunk_header ?f1 =
      read_chunk_header (f\<lparr>fpos := fpos f + length b + length (concat bs)\<rparr>)"
    by simp
  with step show ?case
    by (simp add: add.assoc)
qed

lemma read_chunk_header_line:
  assumes "is_line l" and "strip l CRLF \<noteq> []" and "drop (fpos f) (fdata f) = l @ rest"
  shows "read_chunk_header f = (strip l CRLF, f\<lparr>fpos := fpos f + length l\<rparr>)"
proof -
  have r: "readline f = (l, f\<lparr>fpos := fpos f + length l\<rparr>)"
    using assms(1,3) by (rule readline_line)
  have ne: "l \<noteq> []"
    using assms(1) by (simp add: is_line_def)
  show ?thesis
    by (subst read_chunk_header.simps) (simp add: r ne assms(2) Let_def)
qed

lemma split_Nil [simp]: "split [] = []"
  by (simp add: split_def)

lemma valid_chunk_header_nonempty: "valid_chunk c \<Longrightarrow> chunk_header_of c \<noteq> []"
  by (auto simp: valid_chunk_def split: list.splits)

lemma read_chunk_header_chunk:
  assumes bl: "list_all blank_line (lead c)" and hl: "is_line (header_line c)"
    and ne: "chunk_header_of c \<noteq> []"
    and "drop (fpos f) (fdata f) = chunk_text c @ rest"
  shows "read_chunk_header f =
           (chunk_header_of c, f\<lparr>fpos := fpos f + (length (concat (lead c)) + length (header_line c))\<rparr>)"
proof -
  have ne': "strip (header_line c) CRLF \<noteq> []"
    using ne by (simp add: chunk_header_of_def)
  have d: "drop (fpos f) (fdata f) = concat (lead c) @ (header_line c @ payload c @ rest)"
    using assms(4) by (simp add: chunk_text_def)
  let ?f1 = "f\<lparr>fpos := fpos f + length (concat (lead c))\<rparr>"
  have 1: "read_chunk_header f = read_chunk_header ?f1"
    using bl d by (rule read_chunk_header_blanks)
  have "drop (fpos ?f1) (fdata ?f1) = header_line c @ (payload c @ rest)"
    using drop_advance [OF d] by simp
  from read_chunk_header_line [OF hl ne' this] 1 show ?thesis
    by (simp add: chunk_header_of_def add.assoc)
qed

lemma valid_chunk_parts:
  assumes "valid_chunk c"
  shows "list_all blank_line (lead c)" and "is_line (header_line c)" and "chunk_header_of c \<noteq> []"
  using assms valid_chunk_header_nonempty [OF assms] by (simp_all add: valid_chunk_def)

lemma restart_mark_parts:
  assumes "restart_mark z"
  shows "list_all blank_line (lead z)" and "is_line (header_line z)" and "chunk_header_of z \<noteq> []"
  using assms by (auto simp: restart_mark_def split: list.splits)

lemma AmmoFileReader_body_chunk:
  assumes "valid_chunk c" and "drop (fpos f) (fdata f) = payload c @ rest"
  shows "AmmoFileReader_body (chunk_header_of c) f =
           Yielded (chunk_missile c) (f\<lparr>fpos := fpos f + length (payload c)\<rparr>)"
proof -
  obtain field0 fs where sp: "split (chunk_header_of c) = field0 # fs"
    and n: "py_int field0 = Some (int (length (payload c)))"
    using assms(1) by (auto simp: valid_chunk_def split: list.splits)
  have p: "payload c \<noteq> []"
    using assms(1) by (simp add: valid_chunk_def)
  have r: "read (int (length (payload c))) f = Inr (payload c, f\<lparr>fpos := fpos f + length (payload c)\<rparr>)"
    using assms(2) by (simp add: read_def Let_def)
  show ?thesis
    using sp n p r
    by (simp add: AmmoFileReader_body_def chunk_missile_def chunk_marker_def Let_def)
qed

lemma AmmoFileReader_loop_chunk:
  assumes "valid_chunk c" and "drop (fpos f) (fdata f) = payload c @ rest"
  shows "AmmoFileReader_loop (chunk_header_of c) f =
           Some (Yielded (chunk_missile c) (f\<lparr>fpos := fpos f + length (payload c)\<rparr>))"
  using AmmoFileReader_body_chunk [OF assms] valid_chunk_header_nonempty [OF assms(1)]
  by (subst AmmoFileReader_loop.simps) simp


lemma file_text_Nil [simp]: "file_text [] = []"
  by (simp add: file_text_def)

lemma file_text_append: "file_text (xs @ ys) = file_text xs @ file_text ys"
  by (simp add: file_text_def)

lemma file_text_take_Suc:
  "i < length cs \<Longrightarrow> file_text (take (Suc i) cs) = file_text (take i cs) @ chunk_text (cs ! i)"
  by (simp add: take_Suc_conv_app_nth file_text_append) (simp add: file_text_def)

lemma drop_at_chunk:
  assumes "i < length cs" and "fdata f = file_text cs @ tail"
    and "fpos f = length (file_text (take i cs))"
  shows "drop (fpos f) (fdata f) = chunk_text (cs ! i) @ (file_text (drop (Suc i) cs) @ tail)"
proof -
  have "cs = take i cs @ cs ! i # drop (Suc i) cs"
    using assms(1) by (simp add: id_take_nth_drop)
  then have "file_text cs = file_text (take i cs) @ chunk_text (cs ! i) @ file_text (drop (Suc i) cs)"
    by (metis concat.simps(2) file_text_append file_text_def list.simps(9))
  then show ?thesis
    using assms(2,3) by simp
qed

lemma length_chunk_text:
  "length (chunk_text c) = length (concat (lead c)) + length (header_line c) + length (payload c)"
  by (simp add: chunk_text_def)

lemma from_chunk_start:
  assumes v: "valid_chunk (cs ! i)" and i: "i < length cs"
    and fd: "fdata f = file_text cs @ tail" and fp: "fpos f = length (file_text (take i cs))"
  shows "read_chunk_header f =
           (chunk_header_of (cs ! i),
            f\<lparr>fpos := fpos f + (length (concat (lead (cs ! i))) + length (header_line (cs ! i)))\<rparr>)"
    and "fdata g = file_text cs @ tail \<Longrightarrow>
         fpos g = fpos f + (length (concat (lead (cs ! i))) + length (header_line (cs ! i))) \<Longrightarrow>
         AmmoFileReader_loop (chunk_header_of (cs ! i)) g =
           Some (Yielded (chunk_missile (cs ! i)) (g\<lparr>fpos := length (file_text (take (Suc i) cs))\<rparr>))"
proof -
  let ?c = "cs ! i"
  let ?hb = "length (concat (lead ?c)) + length (header_line ?c)"
  let ?rest = "file_text (drop (Suc i) cs) @ tail"
  have d: "drop (fpos f) (fdata f) = chunk_text ?c @ ?rest"
    using i fd fp by (rule drop_at_chunk)
  show "read_chunk_header f = (chunk_header_of ?c, f\<lparr>fpos := fpos f + ?hb\<rparr>)"
    using valid_chunk_parts [OF v] d by (rule read_chunk_header_chunk)
  assume g: "fdata g = file_text cs @ tail" "fpos g = fpos f + ?hb"
  have "drop (fpos f) (fdata f) = (concat (lead ?c) @ header_line ?c) @ (payload ?c @ ?rest)"
    using d by (simp add: chunk_text_def)
  from drop_advance [OF this] have dg: "drop (fpos g) (fdata g) = payload ?c @ ?rest"
    using g fd by simp
  have "fpos g + length (payload ?c) = length (file_text (take (Suc i) cs))"
    using g(2) fp i by (simp add: file_text_take_Suc length_chunk_text)
  with AmmoFileReader_loop_chunk [OF v dg]
  show "AmmoFileReader_loop (chunk_header_of ?c) g =
           Some (Yielded (chunk_missile ?c) (g\<lparr>fpos := length (file_text (take (Suc i) cs))\<rparr>))"
    by simp
qed

lemma AmmoFileReader_first_chunk:
  assumes v: "list_all valid_chunk cs" and ne: "cs \<noteq> []" and fd: "fdata f = file_text cs @ tail"
  shows "AmmoFileReader_first f =
           Some (Yielded (chunk_missile (cs ! 0))
                  (f\<lparr>fpos := length (file_text (take (Suc 0) cs)), af_size := length (fdata f)\<rparr>))"
proof -
  let ?f0 = "set_af_size (open_file f)"
  have i: "0 < length cs" using ne by simp
  have v0: "valid_chunk (cs ! 0)"
    using v i by (simp add: list_all_length)
  have fd0: "fdata ?f0 = file_text cs @ tail" and fp0: "fpos ?f0 = length (file_text (take 0 cs))"
    using fd by (simp_all add: set_af_size_def open_file_def file_text_def)
  note h = from_chunk_start [OF v0 i fd0 fp0]
  show ?thesis
    unfolding AmmoFileReader_first_def h(1)
    by (simp add: h(2) fd0) (simp add: set_af_size_def open_file_def)
qed

text \<open>A pull when the next chunk is in the file: whatever follows the chunks.\<close>

lemma AmmoFileReader_next_within:
  assumes v: "list_all valid_chunk cs" and i: "i < length cs"
    and fd: "fdata f = file_text cs @ tail" and fp: "fpos f = length (file_text (take i cs))"
  shows "\<exists>f'. AmmoFileReader_next f = Some (Yielded (chunk_missile (cs ! i)) f')
      \<and> fdata f' = fdata f
      \<and> fpos f' = length (file_text (take (Suc i) cs))
      \<and> af_position f' + length (payload (cs ! i)) = fpos f'
      \<and> loop_count f' = loop_count f"
proof -
  have vi: "valid_chunk (cs ! i)"
    using v i by (simp add: list_all_length)
  note h = from_chunk_start [OF vi i fd fp]
  let ?hb = "length (concat (lead (cs ! i))) + length (header_line (cs ! i))"
  let ?g = "f\<lparr>fpos := fpos f + ?hb, af_position := fpos f + ?hb\<rparr>"
  have hne: "chunk_header_of (cs ! i) \<noteq> []"
    using vi by (rule valid_chunk_header_nonempty)
  have adv: "AmmoFileReader_advance f = (chunk_header_of (cs ! i), ?g)"
    by (simp add: AmmoFileReader_advance_def h(1) hne)
  have "AmmoFileReader_loop (chunk_header_of (cs ! i)) ?g =
          Some (Yielded (chunk_missile (cs ! i)) (?g\<lparr>fpos := length (file_text (take (Suc i) cs))\<rparr>))"
    by (rule h(2)) (simp_all add: fd)
  then have n: "AmmoFileReader_next f =
          Some (Yielded (chunk_missile (cs ! i)) (?g\<lparr>fpos := length (file_text (take (Suc i) cs))\<rparr>))"
    by (simp add: AmmoFileReader_next_def adv)
  have "fpos f + ?hb + length (payload (cs ! i)) = length (file_text (take (Suc i) cs))"
    using i fp by (simp add: file_text_take_Suc [OF i] length_chunk_text)
  then show ?thesis
    unfolding n by simp
qed

text \<open>A header whose size is 0: the loop goes on from offset 0.\<close>

lemma AmmoFileReader_loop_zero:
  assumes "split chunk_header = field0 # rest" and "py_int field0 = Some 0"
  shows "AmmoFileReader_loop chunk_header f =
           AmmoFileReader_loop (fst (read_chunk_header (inc_loop_count (seek0 f))))
                               (snd (read_chunk_header (inc_loop_count (seek0 f))))"
proof -
  have "chunk_header \<noteq> []"
    using assms(1) by (auto simp: split_def)
  moreover have "AmmoFileReader_body chunk_header f =
           Continue (fst (read_chunk_header (inc_loop_count (seek0 f))))
                    (snd (read_chunk_header (inc_loop_count (seek0 f))))"
    using assms by (simp add: AmmoFileReader_body_def split_beta)
  ultimately show ?thesis
    by (simp add: AmmoFileReader_loop.simps [of chunk_header f])
qed

text \<open>A pull behind the last chunk: at the end of the file or at the restart mark the
  reader starts over and yields the first chunk.\<close>

lemma AmmoFileReader_next_wrap:
  assumes v: "valid_ammo a" and fd: "fdata f = ammo_text a"
    and fp: "fpos f = length (file_text (chunks a))"
  shows "\<exists>f'. AmmoFileReader_next f = Some (Yielded (chunk_missile (chunks a ! 0)) f')
      \<and> fdata f' = fdata f
      \<and> fpos f' = length (file_text (take (Suc 0) (chunks a)))
      \<and> loop_count f' = loop_count f + 1"
proof -
  let ?cs = "chunks a"
  have i: "0 < length ?cs" and vc: "list_all valid_chunk ?cs"
    using v by (simp_all add: valid_ammo_def)
  have v0: "valid_chunk (?cs ! 0)"
    using vc i by (simp add: list_all_length)
  have fd': "fdata f = file_text ?cs @ restart_text (restart a)"
    using fd by (simp add: ammo_text_def)
  let ?hb = "length (concat (lead (?cs ! 0))) + length (header_line (?cs ! 0))"
  have start: "read_chunk_header (inc_loop_count (seek0 g)) =
                 (chunk_header_of (?cs ! 0), (inc_loop_count (seek0 g))\<lparr>fpos := ?hb\<rparr>)
      \<and> AmmoFileReader_loop (chunk_header_of (?cs ! 0)) ((inc_loop_count (seek0 g))\<lparr>fpos := ?hb\<rparr>) =
          Some (Yielded (chunk_missile (?cs ! 0))
                 ((inc_loop_count (seek0 g))\<lparr>fpos := length (file_text (take (Suc 0) ?cs))\<rparr>))"
    if "fdata g = fdata f" for g :: "'a reader_state_scheme"
  proof -
    let ?g0 = "inc_loop_count (seek0 g)"
    have fd0: "fdata ?g0 = file_text ?cs @ restart_text (restart a)"
      and fp0: "fpos ?g0 = length (file_text (take 0 ?cs))"
      using that fd' by (simp_all add: inc_loop_count_def seek0_def file_text_def)
    note h = from_chunk_start [OF v0 i fd0 fp0]
    have "AmmoFileReader_loop (chunk_header_of (?cs ! 0)) (?g0\<lparr>fpos := ?hb\<rparr>) =
          Some (Yielded (chunk_missile (?cs ! 0))
                 (?g0\<lparr>fpos := ?hb, fpos := length (file_text (take (Suc 0) ?cs))\<rparr>))"
      by (rule h(2)) (simp_all add: fd0 fp0)
    with h(1) fp0 show ?thesis
      by (simp add: file_text_def)
  qed
  show ?thesis
  proof (cases "restart a")
    case None
    then have "fpos f = length (fdata f)"
      using fp fd' by (simp add: restart_text_def)
    then have e: "read_chunk_header f = ([], f)"
      by (simp add: read_chunk_header_eof)
    let ?g = "(inc_loop_count (seek0 f))\<lparr>fpos := ?hb, af_position := ?hb\<rparr>"
    have s1: "read_chunk_header (inc_loop_count (seek0 f)) =
                 (chunk_header_of (?cs ! 0), (inc_loop_count (seek0 f))\<lparr>fpos := ?hb\<rparr>)"
      using start [of f] by simp
    have adv: "AmmoFileReader_advance f = (chunk_header_of (?cs ! 0), ?g)"
      by (simp add: AmmoFileReader_advance_def e s1)
    have fd0: "fdata ?g = file_text ?cs @ restart_text (restart a)"
      using fd' by (simp add: inc_loop_count_def seek0_def)
    have fp0: "fpos (inc_loop_count (seek0 f)) = length (file_text (take 0 ?cs))"
      by (simp add: inc_loop_count_def seek0_def file_text_def)
    have fd00: "fdata (inc_loop_count (seek0 f)) = file_text ?cs @ restart_text (restart a)"
      using fd' by (simp add: inc_loop_count_def seek0_def)
    have "AmmoFileReader_loop (chunk_header_of (?cs ! 0)) ?g =
          Some (Yielded (chunk_missile (?cs ! 0)) (?g\<lparr>fpos := length (file_text (take (Suc 0) ?cs))\<rparr>))"
      by (rule from_chunk_start(2) [OF v0 i fd00 fp0]) (simp_all add: fd0 fp0)
    then have n: "AmmoFileReader_next f =
          Some (Yielded (chunk_missile (?cs ! 0)) (?g\<lparr>fpos := length (file_text (take (Suc 0) ?cs))\<rparr>))"
      by (simp add: AmmoFileReader_next_def adv)
    show ?thesis
      unfolding n by (simp add: inc_loop_count_def seek0_def)
  next
    case (Some z)
    then have z: "restart_mark z"
      using v by (simp add: valid_ammo_def)
    have d: "drop (fpos f) (fdata f) = chunk_text z @ []"
      using fp fd' Some by (simp add: restart_text_def)
    let ?hz = "length (concat (lead z)) + length (header_line z)"
    have r: "read_chunk_header f = (chunk_header_of z, f\<lparr>fpos := fpos f + ?hz\<rparr>)"
      using restart_mark_parts [OF z] d by (rule read_chunk_header_chunk)
    let ?g = "f\<lparr>fpos := fpos f + ?hz, af_position := fpos f + ?hz\<rparr>"
    have adv: "AmmoFileReader_advance f = (chunk_header_of z, ?g)"
      using restart_mark_parts(3) [OF z] by (simp add: AmmoFileReader_advance_def r)
    obtain field0 fs where sp: "split (chunk_header_of z) = field0 # fs" and n0: "py_int field0 = Some 0"
      using z by (auto simp: restart_mark_def split: list.splits)
    have "AmmoFileReader_loop (chunk_header_of z) ?g =
            AmmoFileReader_loop (fst (read_chunk_header (inc_loop_count (seek0 ?g))))
                                (snd (read_chunk_header (inc_loop_count (seek0 ?g))))"
      using sp n0 by (rule AmmoFileReader_loop_zero)
    also have "\<dots> = Some (Yielded (chunk_missile (?cs ! 0))
                 ((inc_loop_count (seek0 ?g))\<lparr>fpos := length (file_text (take (Suc 0) ?cs))\<rparr>))"
      using start [of ?g] by simp
    finally have n: "AmmoFileReader_next f = Some (Yielded (chunk_missile (?cs ! 0))
                 ((inc_loop_count (seek0 ?g))\<lparr>fpos := length (file_text (take (Suc 0) ?cs))\<rparr>))"
      by (simp add: AmmoFileReader_next_def adv)
    show ?thesis
      unfolding n by (simp add: inc_loop_count_def seek0_def)
  qed
qed

lemma AmmoFileReader_next_chunk:
  assumes v: "valid_ammo a" and fd: "fdata f = ammo_text a"
    and fp: "fpos f = length (file_text (take (Suc (m mod length (chunks a))) (chunks a)))"
  shows "\<exists>f'. AmmoFileReader_next f =
               Some (Yielded (chunk_missile (chunks a ! (Suc m mod length (chunks a)))) f')
      \<and> fdata f' = ammo_text a
      \<and> fpos f' = length (file_text (take (Suc (Suc m mod length (chunks a))) (chunks a)))
      \<and> loop_count f' = loop_count f + (if Suc m mod length (chunks a) = 0 then 1 else 0)"
proof (cases "Suc (m mod length (chunks a)) = length (chunks a)")
  case True
  then have k: "Suc m mod length (chunks a) = 0"
    by (simp add: mod_Suc)
  have "fpos f = length (file_text (chunks a))"
    using fp True by simp
  from AmmoFileReader_next_wrap [OF v fd this] show ?thesis
    unfolding k using fd by auto
next
  case False
  have ne: "chunks a \<noteq> []" and vc: "list_all valid_chunk (chunks a)"
    using v by (simp_all add: valid_ammo_def)
  let ?i = "Suc (m mod length (chunks a))"
  have "m mod length (chunks a) < length (chunks a)"
    using ne by simp
  with False have i: "?i < length (chunks a)"
    by simp
  have k: "Suc m mod length (chunks a) = ?i"
    using False by (simp add: mod_Suc)
  have fd': "fdata f = file_text (chunks a) @ restart_text (restart a)"
    using fd by (simp add: ammo_text_def)
  from AmmoFileReader_next_within [OF vc i fd' fp] show ?thesis
    unfolding k using fd by auto
qed

text \<open>Drawing records: when each pull yields the next of a sequence of records and keeps an
  invariant, so do any number of pulls, up to a bound \<open>N\<close> on the records the steps are
  known for.\<close>

lemma draw_more_steps:
  assumes step: "\<And>m f. I m f \<Longrightarrow> Suc m < N \<Longrightarrow>
                   \<exists>f'. nxt f = Some (Yielded (out (Suc m)) f') \<and> I (Suc m) f'"
  shows "I m f \<Longrightarrow> m + n < N \<Longrightarrow>
         \<exists>f'. draw_more nxt n f = Some (map out [Suc m..<Suc m + n], f') \<and> I (m + n) f'"
proof (induction n arbitrary: m f)
  case 0
  then show ?case by simp
next
  case (Suc n)
  have "Suc m < N"
    using Suc.prems(2) by simp
  from step [OF Suc.prems(1) this] obtain f1
    where f1: "nxt f = Some (Yielded (out (Suc m)) f1)" "I (Suc m) f1"
    by blast
  have "Suc m + n < N"
    using Suc.prems(2) by simp
  from Suc.IH [OF f1(2) this] obtain f2
    where f2: "draw_more nxt n f1 = Some (map out [Suc (Suc m)..<Suc (Suc m) + n], f2)" "I (Suc m + n) f2"
    by blast
  have "[Suc m..<Suc m + Suc n] = Suc m # [Suc (Suc m)..<Suc (Suc m) + n]"
    by (simp add: upt_rec)
  then show ?case
    using f1 f2 by simp
qed

lemma draw_steps:
  assumes first: "\<exists>f'. fst_pull f = Some (Yielded (out 0) f') \<and> I 0 f'"
    and step: "\<And>m f. I m f \<Longrightarrow> Suc m < N \<Longrightarrow>
                 \<exists>f'. nxt f = Some (Yielded (out (Suc m)) f') \<and> I (Suc m) f'"
    and n: "n < N"
  shows "\<exists>f'. draw fst_pull nxt (Suc n) f = Some (map out [0..<Suc n], f') \<and> I n f'"
proof -
  from first obtain f1 where f1: "fst_pull f = Some (Yielded (out 0) f1)" "I 0 f1"
    by blast
  have "\<exists>f'. draw_more nxt n f1 = Some (map out [Suc 0..<Suc 0 + n], f') \<and> I (0 + n) f'"
    using step f1(2) by (rule draw_more_steps) (use n in simp_all)
  then obtain f2 where f2: "draw_more nxt n f1 = Some (map out [Suc 0..<Suc 0 + n], f2)" "I n f2"
    by auto
  have "[0..<Suc n] = 0 # [Suc 0..<Suc 0 + n]"
    by (simp add: upt_rec)
  then show ?thesis
    using f1 f2 by (simp add: draw_def)
qed

lemma map_nth_take: "n \<le> length cs \<Longrightarrow> map (\<lambda>j. g (cs ! j)) [0..<n] = map g (take n cs)"
  by (rule nth_equalityI) simp_all

text \<open>Any number of pulls over a valid file: the records of the chunks, round and round.\<close>

lemma AmmoFileReader_draw_valid:
  fixes f :: "'a reader_state_scheme"
  assumes v: "valid_ammo a" and fd: "fdata f = ammo_text a"
  shows "\<exists>f'. AmmoFileReader_draw (Suc n) f =
                Some (map (\<lambda>k. chunk_missile (chunks a ! (k mod length (chunks a)))) [0..<Suc n], f')
           \<and> loop_count f' = loop_count f + int (n div length (chunks a))"
proof -
  let ?cs = "chunks a"
  define I where "I m f' \<longleftrightarrow>
      fdata f' = ammo_text a
      \<and> fpos f' = length (file_text (take (Suc (m mod length ?cs)) ?cs))
      \<and> loop_count f' = loop_count f + int (m div length ?cs)"
    for m and f' :: "'a reader_state_scheme"
  define out where "out k = chunk_missile (?cs ! (k mod length ?cs))" for k
  have ne: "?cs \<noteq> []" and vc: "list_all valid_chunk ?cs"
    using v by (simp_all add: valid_ammo_def)
  have fd': "fdata f = file_text ?cs @ restart_text (restart a)"
    using fd by (simp add: ammo_text_def)
  have first: "\<exists>f'. AmmoFileReader_first f = Some (Yielded (out 0) f') \<and> I 0 f'"
    using AmmoFileReader_first_chunk [OF vc ne fd'] ne fd by (simp add: I_def out_def)
  have step: "\<exists>f'. AmmoFileReader_next g = Some (Yielded (out (Suc m)) f') \<and> I (Suc m) f'"
    if "I m g" and "Suc m < Suc (Suc n)" for m g
  proof -
    from that(1) have g: "fdata g = ammo_text a"
      "fpos g = length (file_text (take (Suc (m mod length ?cs)) ?cs))"
      "loop_count g = loop_count f + int (m div length ?cs)"
      by (simp_all add: I_def)
    from AmmoFileReader_next_chunk [OF v g(1,2)] obtain f'
      where f': "AmmoFileReader_next g = Some (Yielded (chunk_missile (?cs ! (Suc m mod length ?cs))) f')"
        "fdata f' = ammo_text a"
        "fpos f' = length (file_text (take (Suc (Suc m mod length ?cs)) ?cs))"
        "loop_count f' = loop_count g + (if Suc m mod length ?cs = 0 then 1 else 0)"
      by blast
    have "loop_count f' = loop_count f + int (Suc m div length ?cs)"
      using f'(4) g(3) by (simp add: div_Suc)
    with f' show ?thesis
      by (simp add: I_def out_def)
  qed
  have "\<exists>f'. draw AmmoFileReader_first AmmoFileReader_next (Suc n) f = Some (map out [0..<Suc n], f')
           \<and> I n f'"
    using first step by (rule draw_steps [where N = "Suc (Suc n)"]) simp_all
  then obtain f' where "AmmoFileReader_draw (Suc n) f = Some (map out [0..<Suc n], f')" and "I n f'"
    unfolding AmmoFileReader_draw_def by blast
  then show ?thesis
    unfolding I_def out_def by blast
qed

text \<open>Pulls within the first loop, whatever follows the chunks in the file.\<close>

lemma AmmoFileReader_draw_within:
  fixes f :: "'a reader_state_scheme"
  assumes vc: "list_all valid_chunk cs" and fd: "fdata f = file_text cs @ tail" and n: "n < length cs"
  shows "\<exists>f'. AmmoFileReader_draw (Suc n) f = Some (map chunk_missile (take (Suc n) cs), f')
           \<and> fpos f' = length (file_text (take (Suc n) cs))
           \<and> (if n = 0 then af_position f' = af_position f
               else af_position f' + length (payload (cs ! n)) = fpos f')
           \<and> loop_count f' = loop_count f"
proof -
  define I where "I m f' \<longleftrightarrow>
      fdata f' = fdata f
      \<and> fpos f' = length (file_text (take (Suc m) cs))
      \<and> (if m = 0 then af_position f' = af_position f
          else af_position f' + length (payload (cs ! m)) = fpos f')
      \<and> loop_count f' = loop_count f"
    for m and f' :: "'a reader_state_scheme"
  define out where "out k = chunk_missile (cs ! k)" for k
  have ne: "cs \<noteq> []"
    using n by auto
  have first: "\<exists>f'. AmmoFileReader_first f = Some (Yielded (out 0) f') \<and> I 0 f'"
    using AmmoFileReader_first_chunk [OF vc ne fd] by (simp add: I_def out_def)
  have step: "\<exists>f'. AmmoFileReader_next g = Some (Yielded (out (Suc m)) f') \<and> I (Suc m) f'"
    if "I m g" and "Suc m < length cs" for m g
  proof -
    from that(1) have g: "fdata g = file_text cs @ tail"
      "fpos g = length (file_text (take (Suc m) cs))" "loop_count g = loop_count f"
      using fd by (simp_all add: I_def)
    from AmmoFileReader_next_within [OF vc that(2) g(1,2)] g(1,3) fd show ?thesis
      by (auto simp: I_def out_def)
  qed
  have "\<exists>f'. draw AmmoFileReader_first AmmoFileReader_next (Suc n) f = Some (map out [0..<Suc n], f')
           \<and> I n f'"
    using first step n by (rule draw_steps)
  then obtain f' where d: "AmmoFileReader_draw (Suc n) f = Some (map out [0..<Suc n], f')" and "I n f'"
    unfolding AmmoFileReader_draw_def by blast
  moreover have "map out [0..<Suc n] = map chunk_missile (take (Suc n) cs)"
    unfolding out_def using n by (intro map_nth_take) simp
  ultimately show ?thesis
    unfolding I_def by auto
qed

lemma length_file_text: "length (file_text cs) = bytes_consumed cs"
  by (induction cs)
    (simp_all add: file_text_def bytes_consumed_def header_bytes_def payload_bytes_def length_chunk_text)

lemma payload_bytes_take_Suc:
  "i < length cs \<Longrightarrow> payload_bytes (take (Suc i) cs) = payload_bytes (take i cs) + length (payload (cs ! i))"
  by (simp add: take_Suc_conv_app_nth payload_bytes_def)

text \<open>
  C4, as the code has it: over a file that begins with valid chunks, after the consumer has
  drawn \<open>n\<close> records within one loop (\<open>1 \<le> n\<close>, at most the number of chunks), the records
  are those of the first \<open>n\<close> chunks and the file position is the bytes consumed so far: the
  header lines read (with the blank lines passed over) plus the sizes of the \<open>n\<close> chunks
  read. The published \<open>af_position\<close> is the position behind the header of the \<open>n\<close>-th
  chunk, before its payload: the header lines read plus the sizes of the first \<open>n - 1\<close>
  chunks; after the first record it has not been written yet.
\<close>

theorem af_position_behind_header:
  assumes "list_all valid_chunk cs" and "fdata f = file_text cs @ tail" and "1 \<le> n" and "n \<le> length cs"
  shows "\<exists>f'. AmmoFileReader_draw n f = Some (map chunk_missile (take n cs), f')
           \<and> fpos f' = bytes_consumed (take n cs)
           \<and> af_position f' =
               (if n = 1 then af_position f
                else header_bytes (take n cs) + payload_bytes (take (n - 1) cs))"
proof -
  obtain k where n: "n = Suc k"
    using assms(3) by (cases n) simp_all
  have k: "k < length cs"
    using assms(4) n by simp
  from AmmoFileReader_draw_within [OF assms(1,2) k] obtain f'
    where f': "AmmoFileReader_draw (Suc k) f = Some (map chunk_missile (take (Suc k) cs), f')"
      "fpos f' = length (file_text (take (Suc k) cs))"
      "if k = 0 then af_position f' = af_position f
       else af_position f' + length (payload (cs ! k)) = fpos f'"
    by blast
  have p: "fpos f' = bytes_consumed (take n cs)"
    using f'(2) n by (simp add: length_file_text)
  have a: "af_position f' = header_bytes (take n cs) + payload_bytes (take (n - 1) cs)" if "k \<noteq> 0"
  proof -
    have "af_position f' + length (payload (cs ! k)) = bytes_consumed (take (Suc k) cs)"
      using f'(3) that p n by simp
    then show ?thesis
      using n k by (simp add: bytes_consumed_def payload_bytes_take_Suc)
  qed
  show ?thesis
    using f'(1,3) p a n by (cases "k = 0") auto
qed

text \<open>
  C4 as stated fails on the file of the chunks \<^verbatim>\<open>hi\<close> and \<^verbatim>\<open>abc\<close>: after two records
  the published position is 6, and the header lines and chunk sizes read are 9 bytes.
\<close>

theorem af_position_counterexample:
  "list_all valid_chunk two_chunks
   \<and> map_option (af_position \<circ> snd) (AmmoFileReader_draw 2 (fresh_reader (file_text two_chunks))) = Some 6
   \<and> bytes_consumed (take 2 two_chunks) = 9"
  by code_simp

theorem af_position_behind_header_witness:
  "\<exists>f'. AmmoFileReader_draw 2 (fresh_reader (file_text two_chunks @ ''0'' @ [LF])) =
            Some (map chunk_missile (take 2 two_chunks), f')
        \<and> fpos f' = 9 \<and> af_position f' = 6"
proof -
  have h1: "list_all valid_chunk two_chunks"
    by code_simp
  have h2: "fdata (fresh_reader (file_text two_chunks @ ''0'' @ [LF])) = file_text two_chunks @ (''0'' @ [LF])"
    by (simp add: fresh_reader_def)
  have h3: "1 \<le> (2::nat)"
    by simp
  have h4: "2 \<le> length two_chunks"
    by (simp add: two_chunks_def)
  have b: "bytes_consumed (take 2 two_chunks) = 9"
    by code_simp
  have a: "header_bytes (take 2 two_chunks) + payload_bytes (take (2 - 1) two_chunks) = 6"
    by code_simp
  show ?thesis
    using af_position_behind_header [OF h1 h2 h3 h4] unfolding b a by simp
qed

section \<open>The URI+POST reader over a well-formed file\<close>


lemma startswith_Nil [simp]: "\<not> startswith [] ''[''"
  by (simp add: startswith_def)

lemma UriPostReader_read_chunk_header_eof:
  "length (fdata f) \<le> fpos f \<Longrightarrow> UriPostReader_read_chunk_header f = ([], f)"
  by (subst UriPostReader_read_chunk_header.simps) (simp add: readline_eof)

lemma UriPostReader_read_chunk_header_lead:
  "list_all uripost_lead_line ls \<Longrightarrow> drop (fpos f) (fdata f) = concat ls @ rest \<Longrightarrow>
   UriPostReader_read_chunk_header f =
     UriPostReader_read_chunk_header
       (f\<lparr>fpos := fpos f + length (concat ls), self_headers := self_headers f \<union> bracket_headers ls\<rparr>)"
proof (induction ls arbitrary: f)
  case Nil
  then show ?case by (simp add: bracket_headers_def)
next
  case (Cons l ls)
  from Cons.prems(1) have "uripost_lead_line l" and ls: "list_all uripost_lead_line ls"
    by simp_all
  then have l: "is_line l" "startswith l ''['' \<or> strip l CRLF = []"
    by (simp_all add: uripost_lead_line_def)
  have d: "drop (fpos f) (fdata f) = l @ (concat ls @ rest)"
    using Cons.prems(2) by simp
  let ?f1 = "f\<lparr>fpos := fpos f + length l\<rparr>"
  have r: "readline f = (l, ?f1)"
    using l(1) d by (rule readline_line)
  have ne: "l \<noteq> []"
    using l(1) by (simp add: is_line_def)
  let ?g = "?f1\<lparr>self_headers := self_headers f \<union> bracket_headers [l]\<rparr>"
  have step: "UriPostReader_read_chunk_header f = UriPostReader_read_chunk_header ?g"
  proof (cases "startswith l ''[''")
    case True
    then show ?thesis
      by (subst UriPostReader_read_chunk_header.simps) (simp add: r bracket_headers_def)
  next
    case False
    with l(2) have "strip l CRLF = []" by simp
    with False show ?thesis
      by (subst UriPostReader_read_chunk_header.simps) (simp add: r ne bracket_headers_def)
  qed
  have "drop (fpos ?g) (fdata ?g) = concat ls @ rest"
    using drop_advance [OF d] by simp
  from Cons.IH [OF ls this] have "UriPostReader_read_chunk_header ?g =
      UriPostReader_read_chunk_header
        (?g\<lparr>fpos := fpos ?g + length (concat ls), self_headers := self_headers ?g \<union> bracket_headers ls\<rparr>)" .
  also have "?g\<lparr>fpos := fpos ?g + length (concat ls), self_headers := self_headers ?g \<union> bracket_headers ls\<rparr>
      = f\<lparr>fpos := fpos f + length (concat (l # ls)),
           self_headers := self_headers f \<union> bracket_headers (l # ls)\<rparr>"
    by (auto simp: bracket_headers_def add.assoc)
  finally show ?case
    using step by simp
qed

lemma UriPostReader_read_chunk_header_line:
  assumes "is_line l" and "\<not> startswith l ''[''" and "strip l CRLF \<noteq> []"
    and "drop (fpos f) (fdata f) = l @ rest"
  shows "UriPostReader_read_chunk_header f = (strip l CRLF, f\<lparr>fpos := fpos f + length l\<rparr>)"
proof -
  have r: "readline f = (l, f\<lparr>fpos := fpos f + length l\<rparr>)"
    using assms(1,4) by (rule readline_line)
  have ne: "l \<noteq> []"
    using assms(1) by (simp add: is_line_def)
  show ?thesis
    by (subst UriPostReader_read_chunk_header.simps) (simp add: r ne assms(2,3) Let_def)
qed

lemma uripost_valid_chunk_header_nonempty: "uripost_valid_chunk c \<Longrightarrow> chunk_header_of c \<noteq> []"
  by (auto simp: uripost_valid_chunk_def split: list.splits)

lemma UriPostReader_read_chunk_header_chunk:
  assumes bl: "list_all uripost_lead_line (lead c)" and hl: "is_line (header_line c)"
    and nb: "\<not> startswith (header_line c) ''[''" and ne: "chunk_header_of c \<noteq> []"
    and "drop (fpos f) (fdata f) = chunk_text c @ rest"
  shows "UriPostReader_read_chunk_header f =
           (chunk_header_of c,
            f\<lparr>fpos := fpos f + (length (concat (lead c)) + length (header_line c)),
              self_headers := self_headers f \<union> bracket_headers (lead c)\<rparr>)"
proof -
  have ne': "strip (header_line c) CRLF \<noteq> []"
    using ne by (simp add: chunk_header_of_def)
  have d: "drop (fpos f) (fdata f) = concat (lead c) @ (header_line c @ payload c @ rest)"
    using assms(5) by (simp add: chunk_text_def)
  let ?f1 = "f\<lparr>fpos := fpos f + length (concat (lead c)),
                self_headers := self_headers f \<union> bracket_headers (lead c)\<rparr>"
  have 1: "UriPostReader_read_chunk_header f = UriPostReader_read_chunk_header ?f1"
    using bl d by (rule UriPostReader_read_chunk_header_lead)
  have "drop (fpos ?f1) (fdata ?f1) = header_line c @ (payload c @ rest)"
    using drop_advance [OF d] by simp
  from UriPostReader_read_chunk_header_line [OF hl nb ne' this] 1 show ?thesis
    by (simp add: chunk_header_of_def add.assoc)
qed

lemma uripost_valid_chunk_parts:
  assumes "uripost_valid_chunk c"
  shows "list_all uripost_lead_line (lead c)" and "is_line (header_line c)"
    and "\<not> startswith (header_line c) ''[''" and "chunk_header_of c \<noteq> []"
  using assms uripost_valid_chunk_header_nonempty [OF assms] by (simp_all add: uripost_valid_chunk_def)

lemma uripost_restart_mark_parts:
  assumes "uripost_restart_mark z"
  shows "list_all uripost_lead_line (lead z)" and "is_line (header_line z)"
    and "\<not> startswith (header_line z) ''[''" and "chunk_header_of z \<noteq> []"
  using assms by (auto simp: uripost_restart_mark_def split: list.splits)

lemma UriPostReader_loop_chunk:
  assumes "uripost_valid_chunk c" and "drop (fpos f) (fdata f) = payload c @ rest"
  shows "UriPostReader_loop order (chunk_header_of c) f =
           Some (Yielded (uripost_missile order (self_headers f) (http_ver f) c)
                  (f\<lparr>fpos := fpos f + length (payload c)\<rparr>))"
proof -
  obtain field0 u fs where sp: "split (chunk_header_of c) = field0 # u # fs"
    and n: "py_int field0 = Some (int (length (payload c)))"
    using assms(1) by (auto simp: uripost_valid_chunk_def split: list.splits)
  have p: "payload c \<noteq> []"
    using assms(1) by (simp add: uripost_valid_chunk_def)
  have r: "read (int (length (payload c))) f = Inr (payload c, f\<lparr>fpos := fpos f + length (payload c)\<rparr>)"
    using assms(2) by (simp add: read_def Let_def)
  have "UriPostReader_body order (chunk_header_of c) f =
           Yielded (uripost_missile order (self_headers f) (http_ver f) c)
                  (f\<lparr>fpos := fpos f + length (payload c)\<rparr>)"
    using sp n p r
    by (simp add: UriPostReader_body_def uripost_missile_def uripost_marker_def chunk_uri_def Let_def)
  then show ?thesis
    using uripost_valid_chunk_header_nonempty [OF assms(1)]
    by (subst UriPostReader_loop.simps) simp
qed

lemma uripost_from_chunk_start:
  assumes v: "uripost_valid_chunk (cs ! i)" and i: "i < length cs"
    and fd: "fdata f = file_text cs @ tail" and fp: "fpos f = length (file_text (take i cs))"
  shows "UriPostReader_read_chunk_header f =
           (chunk_header_of (cs ! i),
            f\<lparr>fpos := fpos f + (length (concat (lead (cs ! i))) + length (header_line (cs ! i))),
              self_headers := self_headers f \<union> bracket_headers (lead (cs ! i))\<rparr>)"
    and "fdata g = file_text cs @ tail \<Longrightarrow>
         fpos g = fpos f + (length (concat (lead (cs ! i))) + length (header_line (cs ! i))) \<Longrightarrow>
         UriPostReader_loop order (chunk_header_of (cs ! i)) g =
           Some (Yielded (uripost_missile order (self_headers g) (http_ver g) (cs ! i))
                  (g\<lparr>fpos := length (file_text (take (Suc i) cs))\<rparr>))"
proof -
  let ?c = "cs ! i"
  let ?hb = "length (concat (lead ?c)) + length (header_line ?c)"
  let ?rest = "file_text (drop (Suc i) cs) @ tail"
  have d: "drop (fpos f) (fdata f) = chunk_text ?c @ ?rest"
    using i fd fp by (rule drop_at_chunk)
  show "UriPostReader_read_chunk_header f =
          (chunk_header_of ?c,
           f\<lparr>fpos := fpos f + ?hb, self_headers := self_headers f \<union> bracket_headers (lead ?c)\<rparr>)"
    using uripost_valid_chunk_parts [OF v] d by (rule UriPostReader_read_chunk_header_chunk)
  assume g: "fdata g = file_text cs @ tail" "fpos g = fpos f + ?hb"
  have "drop (fpos f) (fdata f) = (concat (lead ?c) @ header_line ?c) @ (payload ?c @ ?rest)"
    using d by (simp add: chunk_text_def)
  from drop_advance [OF this] have dg: "drop (fpos g) (fdata g) = payload ?c @ ?rest"
    using g fd by simp
  have "fpos g + length (payload ?c) = length (file_text (take (Suc i) cs))"
    using g(2) fp i by (simp add: file_text_take_Suc length_chunk_text)
  with UriPostReader_loop_chunk [OF v dg, of order]
  show "UriPostReader_loop order (chunk_header_of ?c) g =
           Some (Yielded (uripost_missile order (self_headers g) (http_ver g) ?c)
                  (g\<lparr>fpos := length (file_text (take (Suc i) cs))\<rparr>))"
    by simp
qed

lemma UriPostReader_first_chunk:
  assumes v: "list_all uripost_valid_chunk cs" and ne: "cs \<noteq> []" and fd: "fdata f = file_text cs @ tail"
  shows "UriPostReader_first order f =
           Some (Yielded (uripost_missile order (self_headers f \<union> bracket_headers (lead (cs ! 0)))
                            (http_ver f) (cs ! 0))
                  (f\<lparr>fpos := length (file_text (take (Suc 0) cs)), af_size := length (fdata f),
                     self_headers := self_headers f \<union> bracket_headers (lead (cs ! 0))\<rparr>))"
proof -
  let ?f0 = "set_af_size (open_file f)"
  have i: "0 < length cs" using ne by simp
  have v0: "uripost_valid_chunk (cs ! 0)"
    using v i by (simp add: list_all_length)
  have fd0: "fdata ?f0 = file_text cs @ tail" and fp0: "fpos ?f0 = length (file_text (take 0 cs))"
    using fd by (simp_all add: set_af_size_def open_file_def)
  note h = uripost_from_chunk_start [OF v0 i fd0 fp0]
  show ?thesis
    unfolding UriPostReader_first_def h(1)
    by (simp add: h(2) fd0) (simp add: set_af_size_def open_file_def)
qed

lemma UriPostReader_next_within:
  assumes v: "list_all uripost_valid_chunk cs" and i: "i < length cs"
    and fd: "fdata f = file_text cs @ tail" and fp: "fpos f = length (file_text (take i cs))"
  shows "\<exists>f'. UriPostReader_next order f =
               Some (Yielded (uripost_missile order
                               (self_headers f \<union> bracket_headers (lead (cs ! i))) (http_ver f) (cs ! i)) f')
      \<and> fdata f' = fdata f
      \<and> fpos f' = length (file_text (take (Suc i) cs))
      \<and> self_headers f' = self_headers f \<union> bracket_headers (lead (cs ! i))
      \<and> http_ver f' = http_ver f"
proof -
  have vi: "uripost_valid_chunk (cs ! i)"
    using v i by (simp add: list_all_length)
  note h = uripost_from_chunk_start [OF vi i fd fp]
  let ?hb = "length (concat (lead (cs ! i))) + length (header_line (cs ! i))"
  let ?g = "f\<lparr>fpos := fpos f + ?hb,
               self_headers := self_headers f \<union> bracket_headers (lead (cs ! i)),
               af_position := fpos f + ?hb\<rparr>"
  have hne: "chunk_header_of (cs ! i) \<noteq> []"
    using vi by (rule uripost_valid_chunk_header_nonempty)
  have adv: "UriPostReader_advance f = (chunk_header_of (cs ! i), ?g)"
    by (simp add: UriPostReader_advance_def h(1) hne)
  have "UriPostReader_loop order (chunk_header_of (cs ! i)) ?g =
          Some (Yielded (uripost_missile order (self_headers ?g) (http_ver ?g) (cs ! i))
                 (?g\<lparr>fpos := length (file_text (take (Suc i) cs))\<rparr>))"
    by (rule h(2)) (simp_all add: fd)
  then have n: "UriPostReader_next order f =
          Some (Yielded (uripost_missile order (self_headers ?g) (http_ver ?g) (cs ! i))
                 (?g\<lparr>fpos := length (file_text (take (Suc i) cs))\<rparr>))"
    by (simp add: UriPostReader_next_def adv)
  show ?thesis
    unfolding n by simp
qed

lemma UriPostReader_loop_zero:
  assumes "split chunk_header = field0 # rest" and "py_int field0 = Some 0"
  shows "UriPostReader_loop order chunk_header f =
           UriPostReader_loop order
             (fst (UriPostReader_read_chunk_header (inc_loop_count (seek0 f))))
             (snd (UriPostReader_read_chunk_header (inc_loop_count (seek0 f))))"
proof -
  have "chunk_header \<noteq> []"
    using assms(1) by (auto simp: split_def)
  moreover have "UriPostReader_body order chunk_header f =
           Continue (fst (UriPostReader_read_chunk_header (inc_loop_count (seek0 f))))
                    (snd (UriPostReader_read_chunk_header (inc_loop_count (seek0 f))))"
    using assms by (simp add: UriPostReader_body_def split_beta)
  ultimately show ?thesis
    by (simp add: UriPostReader_loop.simps [of order chunk_header f])
qed

lemma UriPostReader_next_wrap:
  assumes v: "uripost_valid_ammo a" and fd: "fdata f = ammo_text a"
    and fp: "fpos f = length (file_text (chunks a))"
  shows "\<exists>f'. UriPostReader_next order f =
               Some (Yielded (uripost_missile order
                        (self_headers f \<union> restart_headers a \<union> bracket_headers (lead (chunks a ! 0)))
                        (http_ver f) (chunks a ! 0)) f')
      \<and> fdata f' = fdata f
      \<and> fpos f' = length (file_text (take (Suc 0) (chunks a)))
      \<and> self_headers f' = self_headers f \<union> restart_headers a \<union> bracket_headers (lead (chunks a ! 0))
      \<and> http_ver f' = http_ver f"
proof -
  let ?cs = "chunks a"
  let ?B0 = "bracket_headers (lead (?cs ! 0))"
  have i: "0 < length ?cs" and vc: "list_all uripost_valid_chunk ?cs"
    using v by (simp_all add: uripost_valid_ammo_def)
  have v0: "uripost_valid_chunk (?cs ! 0)"
    using vc i by (simp add: list_all_length)
  have fd': "fdata f = file_text ?cs @ restart_text (restart a)"
    using fd by (simp add: ammo_text_def)
  let ?hb = "length (concat (lead (?cs ! 0))) + length (header_line (?cs ! 0))"
  have start: "UriPostReader_loop order
                 (fst (UriPostReader_read_chunk_header (inc_loop_count (seek0 g))))
                 (snd (UriPostReader_read_chunk_header (inc_loop_count (seek0 g)))) =
          Some (Yielded (uripost_missile order (self_headers g \<union> ?B0) (http_ver g) (?cs ! 0))
                 ((inc_loop_count (seek0 g))
                    \<lparr>fpos := length (file_text (take (Suc 0) ?cs)),
                      self_headers := self_headers g \<union> ?B0\<rparr>))"
    if "fdata g = fdata f" for g :: "'a uri_reader_state_scheme"
  proof -
    let ?g0 = "inc_loop_count (seek0 g)"
    have fd0: "fdata ?g0 = file_text ?cs @ restart_text (restart a)"
      and fp0: "fpos ?g0 = length (file_text (take 0 ?cs))"
      using that fd' by (simp_all add: inc_loop_count_def seek0_def)
    note h = uripost_from_chunk_start [OF v0 i fd0 fp0]
    let ?g1 = "?g0\<lparr>fpos := ?hb, self_headers := self_headers g \<union> ?B0\<rparr>"
    have r: "UriPostReader_read_chunk_header ?g0 = (chunk_header_of (?cs ! 0), ?g1)"
      using h(1) fp0 by (simp add: inc_loop_count_def seek0_def)
    have "UriPostReader_loop order (chunk_header_of (?cs ! 0)) ?g1 =
          Some (Yielded (uripost_missile order (self_headers ?g1) (http_ver ?g1) (?cs ! 0))
                 (?g1\<lparr>fpos := length (file_text (take (Suc 0) ?cs))\<rparr>))"
      by (rule h(2)) (simp_all add: fd0 fp0)
    then show ?thesis
      unfolding r by (simp add: inc_loop_count_def seek0_def)
  qed
  show ?thesis
  proof (cases "restart a")
    case None
    then have "fpos f = length (fdata f)"
      using fp fd' by (simp add: restart_text_def)
    then have e: "UriPostReader_read_chunk_header f = ([], f)"
      by (simp add: UriPostReader_read_chunk_header_eof)
    let ?f0 = "inc_loop_count (seek0 f)"
    have fd0: "fdata ?f0 = file_text ?cs @ restart_text (restart a)"
      and fp0: "fpos ?f0 = length (file_text (take 0 ?cs))"
      using fd' by (simp_all add: inc_loop_count_def seek0_def)
    note h = uripost_from_chunk_start [OF v0 i fd0 fp0]
    let ?g = "?f0\<lparr>fpos := fpos ?f0 + ?hb,
                 self_headers := self_headers ?f0 \<union> ?B0,
                 af_position := fpos ?f0 + ?hb\<rparr>"
    have adv: "UriPostReader_advance f = (chunk_header_of (?cs ! 0), ?g)"
      by (simp add: UriPostReader_advance_def e h(1))
    have "UriPostReader_loop order (chunk_header_of (?cs ! 0)) ?g =
          Some (Yielded (uripost_missile order (self_headers ?g) (http_ver ?g) (?cs ! 0))
                 (?g\<lparr>fpos := length (file_text (take (Suc 0) ?cs))\<rparr>))"
      by (rule h(2)) (simp_all add: fd0)
    then have n: "UriPostReader_next order f =
          Some (Yielded (uripost_missile order (self_headers ?g) (http_ver ?g) (?cs ! 0))
                 (?g\<lparr>fpos := length (file_text (take (Suc 0) ?cs))\<rparr>))"
      by (simp add: UriPostReader_next_def adv)
    show ?thesis
      unfolding n using None by (simp add: inc_loop_count_def seek0_def restart_headers_def)
  next
    case (Some z)
    then have z: "uripost_restart_mark z"
      using v by (simp add: uripost_valid_ammo_def)
    have d: "drop (fpos f) (fdata f) = chunk_text z @ []"
      using fp fd' Some by (simp add: restart_text_def)
    let ?hz = "length (concat (lead z)) + length (header_line z)"
    let ?f1 = "f\<lparr>fpos := fpos f + ?hz, self_headers := self_headers f \<union> bracket_headers (lead z)\<rparr>"
    have r: "UriPostReader_read_chunk_header f = (chunk_header_of z, ?f1)"
      using uripost_restart_mark_parts [OF z] d by (rule UriPostReader_read_chunk_header_chunk)
    let ?g = "?f1\<lparr>af_position := fpos f + ?hz\<rparr>"
    have adv: "UriPostReader_advance f = (chunk_header_of z, ?g)"
      using uripost_restart_mark_parts(4) [OF z] by (simp add: UriPostReader_advance_def r)
    obtain field0 fs where sp: "split (chunk_header_of z) = field0 # fs" and n0: "py_int field0 = Some 0"
      using z by (auto simp: uripost_restart_mark_def split: list.splits)
    have "UriPostReader_loop order (chunk_header_of z) ?g =
            UriPostReader_loop order
              (fst (UriPostReader_read_chunk_header (inc_loop_count (seek0 ?g))))
              (snd (UriPostReader_read_chunk_header (inc_loop_count (seek0 ?g))))"
      using sp n0 by (rule UriPostReader_loop_zero)
    also have "\<dots> = Some (Yielded (uripost_missile order (self_headers ?g \<union> ?B0) (http_ver ?g) (?cs ! 0))
                 ((inc_loop_count (seek0 ?g))
                    \<lparr>fpos := length (file_text (take (Suc 0) ?cs)),
                      self_headers := self_headers ?g \<union> ?B0\<rparr>))"
      by (rule start) simp
    finally have n: "UriPostReader_next order f =
        Some (Yielded (uripost_missile order (self_headers ?g \<union> ?B0) (http_ver ?g) (?cs ! 0))
                 ((inc_loop_count (seek0 ?g))
                    \<lparr>fpos := length (file_text (take (Suc 0) ?cs)),
                      self_headers := self_headers ?g \<union> ?B0\<rparr>))"
      by (simp add: UriPostReader_next_def adv)
    show ?thesis
      unfolding n using Some by (simp add: inc_loop_count_def seek0_def restart_headers_def)
  qed
qed

lemma headers_until_Suc:
  "headers_until a hs (Suc m) = headers_until a hs m \<union> lead_headers a (Suc m)"
  by (simp add: headers_until_def atMost_Suc Un_commute Un_left_commute)

lemma UriPostReader_next_chunk:
  assumes v: "uripost_valid_ammo a" and fd: "fdata f = ammo_text a"
    and fp: "fpos f = length (file_text (take (Suc (m mod length (chunks a))) (chunks a)))"
  shows "\<exists>f'. UriPostReader_next order f =
               Some (Yielded (uripost_missile order (self_headers f \<union> lead_headers a (Suc m))
                               (http_ver f) (chunks a ! (Suc m mod length (chunks a)))) f')
      \<and> fdata f' = ammo_text a
      \<and> fpos f' = length (file_text (take (Suc (Suc m mod length (chunks a))) (chunks a)))
      \<and> self_headers f' = self_headers f \<union> lead_headers a (Suc m)
      \<and> http_ver f' = http_ver f"
proof (cases "Suc (m mod length (chunks a)) = length (chunks a)")
  case True
  then have k: "Suc m mod length (chunks a) = 0"
    by (simp add: mod_Suc)
  have "fpos f = length (file_text (chunks a))"
    using fp True by simp
  from UriPostReader_next_wrap [OF v fd this, of order] show ?thesis
    unfolding k lead_headers_def using fd k by (auto simp: Un_ac)
next
  case False
  have ne: "chunks a \<noteq> []" and vc: "list_all uripost_valid_chunk (chunks a)"
    using v by (simp_all add: uripost_valid_ammo_def)
  let ?i = "Suc (m mod length (chunks a))"
  have "m mod length (chunks a) < length (chunks a)"
    using ne by simp
  with False have i: "?i < length (chunks a)"
    by simp
  have k: "Suc m mod length (chunks a) = ?i"
    using False by (simp add: mod_Suc)
  have fd': "fdata f = file_text (chunks a) @ restart_text (restart a)"
    using fd by (simp add: ammo_text_def)
  from UriPostReader_next_within [OF vc i fd' fp, of order] show ?thesis
    unfolding lead_headers_def k using fd by auto
qed

lemma UriPostReader_draw_valid:
  fixes f :: "'a uri_reader_state_scheme"
  assumes v: "uripost_valid_ammo a" and fd: "fdata f = ammo_text a"
  shows "\<exists>f'. UriPostReader_draw order (Suc n) f =
                Some (map (\<lambda>k. uripost_missile order (headers_until a (self_headers f) k) (http_ver f)
                                  (chunks a ! (k mod length (chunks a)))) [0..<Suc n], f')
           \<and> self_headers f' = headers_until a (self_headers f) n"
proof -
  let ?cs = "chunks a"
  define I where "I m f' \<longleftrightarrow>
      fdata f' = ammo_text a
      \<and> fpos f' = length (file_text (take (Suc (m mod length ?cs)) ?cs))
      \<and> self_headers f' = headers_until a (self_headers f) m
      \<and> http_ver f' = http_ver f"
    for m and f' :: "'a uri_reader_state_scheme"
  define out where "out k = uripost_missile order (headers_until a (self_headers f) k) (http_ver f)
                                  (?cs ! (k mod length ?cs))" for k
  have ne: "?cs \<noteq> []" and vc: "list_all uripost_valid_chunk ?cs"
    using v by (simp_all add: uripost_valid_ammo_def)
  have fd': "fdata f = file_text ?cs @ restart_text (restart a)"
    using fd by (simp add: ammo_text_def)
  have h0: "headers_until a (self_headers f) 0 = self_headers f \<union> bracket_headers (lead (?cs ! 0))"
    by (simp add: headers_until_def lead_headers_def)
  have first: "\<exists>f'. UriPostReader_first order f = Some (Yielded (out 0) f') \<and> I 0 f'"
    using UriPostReader_first_chunk [OF vc ne fd', of order] ne fd by (simp add: I_def out_def h0)
  have step: "\<exists>f'. UriPostReader_next order g = Some (Yielded (out (Suc m)) f') \<and> I (Suc m) f'"
    if "I m g" and "Suc m < Suc (Suc n)" for m g
  proof -
    from that(1) have g: "fdata g = ammo_text a"
      "fpos g = length (file_text (take (Suc (m mod length ?cs)) ?cs))"
      "self_headers g = headers_until a (self_headers f) m" "http_ver g = http_ver f"
      by (simp_all add: I_def)
    have hs: "self_headers g \<union> lead_headers a (Suc m) = headers_until a (self_headers f) (Suc m)"
      unfolding g(3) by (simp add: headers_until_Suc)
    from UriPostReader_next_chunk [OF v g(1,2), of order] hs g(4) show ?thesis
      by (auto simp: I_def out_def)
  qed
  have "\<exists>f'. draw (UriPostReader_first order) (UriPostReader_next order) (Suc n) f =
               Some (map out [0..<Suc n], f') \<and> I n f'"
    using first step by (rule draw_steps [where N = "Suc (Suc n)"]) simp_all
  then obtain f' where "UriPostReader_draw order (Suc n) f = Some (map out [0..<Suc n], f')" and "I n f'"
    unfolding UriPostReader_draw_def by blast
  then show ?thesis
    unfolding I_def out_def by blast
qed

section \<open>Blank lines in front of chunk headers\<close>

lemma length_insert_blanks: "length bss = length cs \<Longrightarrow> length (insert_blanks bss cs) = length cs"
  by (simp add: insert_blanks_def)

lemma nth_insert_blanks:
  "length bss = length cs \<Longrightarrow> i < length cs \<Longrightarrow>
   insert_blanks bss cs ! i = (cs ! i)\<lparr>lead := lead (cs ! i) @ bss ! i\<rparr>"
  by (simp add: insert_blanks_def)

lemma blank_line_no_bracket:
  assumes "blank_line l"
  shows "\<not> startswith l ''[''"
proof
  assume s: "startswith l ''[''"
  then obtain t where l: "l = CHR ''['' # t"
    by (cases l) (auto simp: startswith_def)
  have "CHR ''['' \<notin> set CRLF"
    by (simp add: CRLF_def CR_def LF_def)
  then have "dropWhile (\<lambda>c. c \<in> set CRLF) l = l"
    using l by simp
  then have "rstrip l CRLF = []"
    using assms by (simp add: blank_line_def strip_def)
  then have "\<forall>c\<in>set l. c \<in> set CRLF"
    by (simp add: rstrip_def)
  with l \<open>CHR ''['' \<notin> set CRLF\<close> show False
    by simp
qed

lemma bracket_headers_blanks:
  "list_all blank_line bs \<Longrightarrow> bracket_headers (ls @ bs) = bracket_headers ls"
proof -
  assume "list_all blank_line bs"
  then have "filter (\<lambda>l. startswith l ''['') bs = []"
    by (auto simp: filter_empty_conv list_all_iff dest: blank_line_no_bracket)
  then show ?thesis
    by (simp add: bracket_headers_def)
qed

lemma insert_blanks_valid:
  assumes "length bss = length cs" and "list_all (list_all blank_line) bss" and "list_all valid_chunk cs"
  shows "list_all valid_chunk (insert_blanks bss cs)"
  unfolding list_all_length
proof (intro allI impI)
  fix i assume "i < length (insert_blanks bss cs)"
  then have i: "i < length cs"
    using assms(1) by (simp add: length_insert_blanks)
  have "list_all blank_line (bss ! i)" and "valid_chunk (cs ! i)"
    using assms i by (simp_all add: list_all_length)
  then show "valid_chunk (insert_blanks bss cs ! i)"
    by (simp add: nth_insert_blanks [OF assms(1) i] valid_chunk_def chunk_header_of_def
        split: list.splits)
qed

lemma insert_blanks_uripost_valid:
  assumes "length bss = length cs" and "list_all (list_all blank_line) bss"
    and "list_all uripost_valid_chunk cs"
  shows "list_all uripost_valid_chunk (insert_blanks bss cs)"
  unfolding list_all_length
proof (intro allI impI)
  fix i assume "i < length (insert_blanks bss cs)"
  then have i: "i < length cs"
    using assms(1) by (simp add: length_insert_blanks)
  have "list_all blank_line (bss ! i)" and v: "uripost_valid_chunk (cs ! i)"
    using assms i by (simp_all add: list_all_length)
  then have "list_all uripost_lead_line (bss ! i)"
    by (simp add: list_all_iff blank_line_def uripost_lead_line_def)
  with v show "uripost_valid_chunk (insert_blanks bss cs ! i)"
    by (simp add: nth_insert_blanks [OF assms(1) i] uripost_valid_chunk_def chunk_header_of_def
        split: list.splits)
qed

lemma insert_blanks_missile:
  assumes "length bss = length cs" and "i < length cs"
  shows "chunk_missile (insert_blanks bss cs ! i) = chunk_missile (cs ! i)"
  by (simp add: nth_insert_blanks [OF assms] chunk_missile_def chunk_marker_def chunk_header_of_def)

lemma insert_blanks_uripost_missile:
  assumes "length bss = length cs" and "i < length cs"
  shows "uripost_missile order hs ver (insert_blanks bss cs ! i) = uripost_missile order hs ver (cs ! i)"
  by (simp add: nth_insert_blanks [OF assms] uripost_missile_def uripost_marker_def chunk_uri_def
      chunk_header_of_def)

lemma chunks_with_blanks [simp]: "chunks (with_blanks bss mbs a) = insert_blanks bss (chunks a)"
  by (simp add: with_blanks_def)

lemma restart_with_blanks [simp]:
  "restart (with_blanks bss mbs a) = map_option (\<lambda>z. z\<lparr>lead := lead z @ mbs\<rparr>) (restart a)"
  by (simp add: with_blanks_def)

lemma with_blanks_valid:
  assumes "valid_ammo a" and "length bss = length (chunks a)"
    and "list_all (list_all blank_line) bss" and "list_all blank_line mbs"
  shows "valid_ammo (with_blanks bss mbs a)"
proof -
  have "list_all valid_chunk (insert_blanks bss (chunks a))"
    using assms(2,3) assms(1) by (intro insert_blanks_valid) (simp_all add: valid_ammo_def)
  moreover have "insert_blanks bss (chunks a) \<noteq> []"
    using assms(1,2) length_insert_blanks [OF assms(2)] by (auto simp: valid_ammo_def)
  moreover have "restart_mark (z\<lparr>lead := lead z @ mbs\<rparr>)" if "restart_mark z" for z
    using that assms(4) by (simp add: restart_mark_def chunk_header_of_def split: list.splits)
  ultimately show ?thesis
    using assms(1) by (auto simp: valid_ammo_def split: option.splits)
qed

lemma with_blanks_uripost_valid:
  assumes "uripost_valid_ammo a" and "length bss = length (chunks a)"
    and "list_all (list_all blank_line) bss" and "list_all blank_line mbs"
  shows "uripost_valid_ammo (with_blanks bss mbs a)"
proof -
  have "list_all uripost_valid_chunk (insert_blanks bss (chunks a))"
    using assms(2,3) assms(1) by (intro insert_blanks_uripost_valid) (simp_all add: uripost_valid_ammo_def)
  moreover have "insert_blanks bss (chunks a) \<noteq> []"
    using assms(1,2) length_insert_blanks [OF assms(2)] by (auto simp: uripost_valid_ammo_def)
  moreover have "list_all uripost_lead_line mbs"
    using assms(4) by (simp add: list_all_iff blank_line_def uripost_lead_line_def)
  then have "uripost_restart_mark (z\<lparr>lead := lead z @ mbs\<rparr>)" if "uripost_restart_mark z" for z
    using that by (simp add: uripost_restart_mark_def chunk_header_of_def split: list.splits)
  ultimately show ?thesis
    using assms(1) by (auto simp: uripost_valid_ammo_def split: option.splits)
qed

lemma with_blanks_headers_until:
  assumes "length bss = length (chunks a)" and "list_all (list_all blank_line) bss"
    and "list_all blank_line mbs" and "chunks a \<noteq> []"
  shows "headers_until (with_blanks bss mbs a) hs m = headers_until a hs m"
proof -
  have r: "restart_headers (with_blanks bss mbs a) = restart_headers a"
    using assms(3) by (simp add: restart_headers_def bracket_headers_blanks split: option.splits)
  have "bracket_headers (lead (insert_blanks bss (chunks a) ! (j mod length (chunks a))))
          = bracket_headers (lead (chunks a ! (j mod length (chunks a))))" for j
  proof -
    have j: "j mod length (chunks a) < length (chunks a)"
      using assms(4) by simp
    then have "list_all blank_line (bss ! (j mod length (chunks a)))"
      using assms(1,2) by (simp add: list_all_length)
    then show ?thesis
      by (simp add: nth_insert_blanks [OF assms(1) j] bracket_headers_blanks)
  qed
  then have "lead_headers (with_blanks bss mbs a) j = lead_headers a j" for j
    by (simp add: lead_headers_def r length_insert_blanks [OF assms(1)])
  then show ?thesis
    by (simp add: headers_until_def)
qed

lemma UriPostReader_read_chunk_header_blanks:
  assumes "list_all blank_line bs" and "drop (fpos f) (fdata f) = concat bs @ rest"
  shows "UriPostReader_read_chunk_header f =
           UriPostReader_read_chunk_header (f\<lparr>fpos := fpos f + length (concat bs)\<rparr>)"
proof -
  have "list_all uripost_lead_line bs"
    using assms(1) by (simp add: list_all_iff blank_line_def uripost_lead_line_def)
  moreover have "bracket_headers bs = {}"
    using bracket_headers_blanks [OF assms(1), of "[]"] by (simp add: bracket_headers_def)
  ultimately show ?thesis
    using UriPostReader_read_chunk_header_lead [OF _ assms(2)] by simp
qed

text \<open>
  C10: take a valid chunked file and insert, immediately before any of its chunk headers
  (the header of a closing restart mark included), lines that are empty once CR and LF are
  stripped. For every number of pulls, also across restarts, the chunked binary reader
  yields the same (payload, marker) records from both files, and the URI+POST reader,
  started with the same headers and HTTP version, the same rendered records. In any file
  and at any position, \<^verbatim>\<open>read_chunk_header\<close> of either reader returns in front of blank
  lines what it returns behind them: they are passed over, neither taken for headers nor for
  the end of the input.
\<close>

theorem blank_lines_keep_records:
  fixes f f' h :: "'a reader_state_scheme" and g g' k :: "'b uri_reader_state_scheme"
  shows
  "(valid_ammo a \<and> length bss = length (chunks a) \<and> list_all (list_all blank_line) bss
      \<and> list_all blank_line mbs
      \<and> fdata f = ammo_text a \<and> fdata f' = ammo_text (with_blanks bss mbs a)
    \<longrightarrow> (\<exists>ms. map_option fst (AmmoFileReader_draw n f) = Some ms
             \<and> map_option fst (AmmoFileReader_draw n f') = Some ms))
   \<and> (uripost_valid_ammo p \<and> length pss = length (chunks p) \<and> list_all (list_all blank_line) pss
        \<and> list_all blank_line mps
        \<and> fdata g = ammo_text p \<and> fdata g' = ammo_text (with_blanks pss mps p)
        \<and> self_headers g' = self_headers g \<and> http_ver g' = http_ver g
    \<longrightarrow> (\<exists>ms. map_option fst (UriPostReader_draw order n g) = Some ms
             \<and> map_option fst (UriPostReader_draw order n g') = Some ms))
   \<and> (list_all blank_line bs \<and> drop (fpos h) (fdata h) = concat bs @ rest
    \<longrightarrow> read_chunk_header h = read_chunk_header (h\<lparr>fpos := fpos h + length (concat bs)\<rparr>))
   \<and> (list_all blank_line bs \<and> drop (fpos k) (fdata k) = concat bs @ rest
    \<longrightarrow> UriPostReader_read_chunk_header k =
          UriPostReader_read_chunk_header (k\<lparr>fpos := fpos k + length (concat bs)\<rparr>))"
proof (intro conjI impI; elim conjE)
  assume a: "valid_ammo a" "length bss = length (chunks a)"
    "list_all (list_all blank_line) bss" "list_all blank_line mbs" "fdata f = ammo_text a"
    "fdata f' = ammo_text (with_blanks bss mbs a)"
  show "\<exists>ms. map_option fst (AmmoFileReader_draw n f) = Some ms
             \<and> map_option fst (AmmoFileReader_draw n f') = Some ms"
  proof (cases n)
    case 0
    then show ?thesis
      by (simp add: AmmoFileReader_draw_def draw_def)
  next
    case (Suc j)
    let ?a' = "with_blanks bss mbs a"
    have ne: "chunks a \<noteq> []"
      using a(1) by (simp add: valid_ammo_def)
    have l: "length (chunks ?a') = length (chunks a)"
      using a(2) by (simp add: length_insert_blanks)
    have v': "valid_ammo ?a'"
      using a(1-4) by (rule with_blanks_valid)
    have same: "map (\<lambda>i. chunk_missile (chunks ?a' ! (i mod length (chunks ?a')))) [0..<Suc j]
                  = map (\<lambda>i. chunk_missile (chunks a ! (i mod length (chunks a)))) [0..<Suc j]"
      unfolding l using ne by (intro map_cong refl) (simp add: insert_blanks_missile [OF a(2)])
    from AmmoFileReader_draw_valid [OF a(1) a(5), of j]
      AmmoFileReader_draw_valid [OF v' a(6), of j] same
    show ?thesis
      unfolding Suc by auto
  qed
next
  assume a: "uripost_valid_ammo p" "length pss = length (chunks p)"
    "list_all (list_all blank_line) pss" "list_all blank_line mps" "fdata g = ammo_text p"
    "fdata g' = ammo_text (with_blanks pss mps p)"
    "self_headers g' = self_headers g" "http_ver g' = http_ver g"
  show "\<exists>ms. map_option fst (UriPostReader_draw order n g) = Some ms
             \<and> map_option fst (UriPostReader_draw order n g') = Some ms"
  proof (cases n)
    case 0
    then show ?thesis
      by (simp add: UriPostReader_draw_def draw_def)
  next
    case (Suc j)
    let ?p' = "with_blanks pss mps p"
    have ne: "chunks p \<noteq> []"
      using a(1) by (simp add: uripost_valid_ammo_def)
    have l: "length (chunks ?p') = length (chunks p)"
      using a(2) by (simp add: length_insert_blanks)
    have v': "uripost_valid_ammo ?p'"
      using a(1-4) by (rule with_blanks_uripost_valid)
    have same: "map (\<lambda>i. uripost_missile order (headers_until ?p' (self_headers g') i) (http_ver g')
                          (chunks ?p' ! (i mod length (chunks ?p')))) [0..<Suc j]
                  = map (\<lambda>i. uripost_missile order (headers_until p (self_headers g) i) (http_ver g)
                          (chunks p ! (i mod length (chunks p)))) [0..<Suc j]"
      unfolding l a(7,8) with_blanks_headers_until [OF a(2,3,4) ne]
      using ne by (intro map_cong refl) (simp add: insert_blanks_uripost_missile [OF a(2)])
    from UriPostReader_draw_valid [OF a(1) a(5), of order j]
      UriPostReader_draw_valid [OF v' a(6), of order j] same
    show ?thesis
      unfolding Suc by auto
  qed
next
  assume "list_all blank_line bs" and "drop (fpos h) (fdata h) = concat bs @ rest"
  then show "read_chunk_header h = read_chunk_header (h\<lparr>fpos := fpos h + length (concat bs)\<rparr>)"
    by (rule read_chunk_header_blanks)
next
  assume "list_all blank_line bs" and "drop (fpos k) (fdata k) = concat bs @ rest"
  then show "UriPostReader_read_chunk_header k =
          UriPostReader_read_chunk_header (k\<lparr>fpos := fpos k + length (concat bs)\<rparr>)"
    by (rule UriPostReader_read_chunk_header_blanks)
qed

theorem blank_lines_keep_records_witness:
  "(\<exists>ms. map_option fst (AmmoFileReader_draw 5 (fresh_reader (ammo_text binary_ammo))) = Some ms
        \<and> map_option fst
             (AmmoFileReader_draw 5
                (fresh_reader (ammo_text (with_blanks two_blanks [[LF]] binary_ammo)))) = Some ms)
   \<and> (\<exists>ms. map_option fst
              (UriPostReader_draw (order_by [''X: 1'', ''Y: 2'']) 5
                 (fresh_uri_reader (ammo_text post_ammo) [] ''1.1'')) = Some ms
        \<and> map_option fst
              (UriPostReader_draw (order_by [''X: 1'', ''Y: 2'']) 5
                 (fresh_uri_reader (ammo_text (with_blanks two_blanks [[LF]] post_ammo)) [] ''1.1'')) = Some ms)
   \<and> read_chunk_header (fresh_reader ([LF] @ [CR, LF] @ ''5 x'' @ [LF] @ ''abcde'')) =
       read_chunk_header
         ((fresh_reader ([LF] @ [CR, LF] @ ''5 x'' @ [LF] @ ''abcde''))
            \<lparr>fpos := fpos (fresh_reader ([LF] @ [CR, LF] @ ''5 x'' @ [LF] @ ''abcde''))
                      + length (concat [[LF], [CR, LF]])\<rparr>)
   \<and> UriPostReader_read_chunk_header (fresh_uri_reader ([LF] @ [CR, LF] @ ''5 x'' @ [LF] @ ''abcde'') [] ''1.1'') =
       UriPostReader_read_chunk_header
         ((fresh_uri_reader ([LF] @ [CR, LF] @ ''5 x'' @ [LF] @ ''abcde'') [] ''1.1'')
            \<lparr>fpos := fpos (fresh_uri_reader ([LF] @ [CR, LF] @ ''5 x'' @ [LF] @ ''abcde'') [] ''1.1'')
                      + length (concat [[LF], [CR, LF]])\<rparr>)"
proof -
  let ?f = "fresh_reader (ammo_text binary_ammo)"
  let ?f' = "fresh_reader (ammo_text (with_blanks two_blanks [[LF]] binary_ammo))"
  let ?g = "fresh_uri_reader (ammo_text post_ammo) [] ''1.1''"
  let ?g' = "fresh_uri_reader (ammo_text (with_blanks two_blanks [[LF]] post_ammo)) [] ''1.1''"
  let ?h = "fresh_reader ([LF] @ [CR, LF] @ ''5 x'' @ [LF] @ ''abcde'')"
  let ?k = "fresh_uri_reader ([LF] @ [CR, LF] @ ''5 x'' @ [LF] @ ''abcde'') [] ''1.1''"
  have h1: "valid_ammo binary_ammo \<and> length two_blanks = length (chunks binary_ammo)
      \<and> list_all (list_all blank_line) two_blanks \<and> list_all blank_line [[LF]]
      \<and> fdata ?f = ammo_text binary_ammo
      \<and> fdata ?f' = ammo_text (with_blanks two_blanks [[LF]] binary_ammo)"
    by code_simp
  have h2: "uripost_valid_ammo post_ammo \<and> length two_blanks = length (chunks post_ammo)
      \<and> list_all (list_all blank_line) two_blanks \<and> list_all blank_line [[LF]]
      \<and> fdata ?g = ammo_text post_ammo
      \<and> fdata ?g' = ammo_text (with_blanks two_blanks [[LF]] post_ammo)
      \<and> self_headers ?g' = self_headers ?g \<and> http_ver ?g' = http_ver ?g"
    by code_simp
  have h3: "list_all blank_line [[LF], [CR, LF]]
      \<and> drop (fpos ?h) (fdata ?h) = concat [[LF], [CR, LF]] @ (''5 x'' @ [LF] @ ''abcde'')"
    by code_simp
  have h4: "list_all blank_line [[LF], [CR, LF]]
      \<and> drop (fpos ?k) (fdata ?k) = concat [[LF], [CR, LF]] @ (''5 x'' @ [LF] @ ''abcde'')"
    by code_simp
  note t = blank_lines_keep_records [of binary_ammo two_blanks "[[LF]]" ?f ?f' 5
      post_ammo two_blanks "[[LF]]" ?g ?g' "order_by [''X: 1'', ''Y: 2'']"
      "[[LF], [CR, LF]]" ?h "''5 x'' @ [LF] @ ''abcde''" ?k]
  show ?thesis
    using t [THEN conjunct1, THEN mp, OF h1]
      t [THEN conjunct2, THEN conjunct1, THEN mp, OF h2]
      t [THEN conjunct2, THEN conjunct2, THEN conjunct1, THEN mp, OF h3]
      t [THEN conjunct2, THEN conjunct2, THEN conjunct2, THEN mp, OF h4]
    by (intro conjI)
qed

section \<open>Properties of the URI reader\<close>

lemma UriReader_scan_headers:
  "UriReader_scan order f = Some r \<Longrightarrow>
     self_headers f \<subseteq> self_headers (snd r)
       \<and> (\<exists>u. fst r = (to_s order (HttpAmmo_init u (self_headers (snd r)) ''GET'' (http_ver f) []), None))"
proof (induction order f r rule: UriReader_scan.raw_induct [rotated 1, consumes 1])
  case (1 scan order f r)
  obtain line f1 where rl: "readline f = (line, f1)"
    by (cases "readline f")
  have f1: "self_headers f1 = self_headers f" "http_ver f1 = http_ver f"
    using rl by (auto simp: readline_def Let_def)
  show ?case
  proof (cases "line = []")
    case True
    then have "scan order (inc_loop_count (seek0 f1\<lparr>af_position := 0\<rparr>)) = Some r"
      using 1(2) rl by simp
    from 1(1) [OF this] show ?thesis
      using f1 by (simp add: inc_loop_count_def seek0_def)
  next
    case False
    note ne = this
    show ?thesis
    proof (cases "startswith line ''[''")
      case True
      then have "scan order (f1\<lparr>af_position := fpos f1,
                   self_headers := insert (strip line header_chars) (self_headers f1)\<rparr>) = Some r"
        using 1(2) rl ne by (simp add: Let_def)
      from 1(1) [OF this] show ?thesis
        using f1 by auto
    next
      case False
      note nb = this
      show ?thesis
      proof (cases "length (rstrip line CRLF) \<noteq> 0")
        case True
        then have "r = ((to_s order (HttpAmmo_init (rstrip line CRLF) (self_headers f1) ''GET'' (http_ver f1) []),
                          None), f1\<lparr>af_position := fpos f1\<rparr>)"
          using 1(2) rl ne nb by (simp add: Let_def)
        then show ?thesis
          using f1 by auto
      next
        case False
        then have "scan order (f1\<lparr>af_position := fpos f1\<rparr>) = Some r"
          using 1(2) rl ne nb by (simp add: Let_def)
        from 1(1) [OF this] show ?thesis
          using f1 by auto
      qed
    qed
  qed
qed

text \<open>
  C7: a pull on the URI reader never takes a header out of \<^verbatim>\<open>self.headers\<close>, also when
  it passes the end of the file and starts over, and the record it yields is a GET request
  with one header line for each member of the set: every header the reader held before the
  pull is a line of the record. Over the four lines \<^verbatim>\<open>[X: 1]\<close>, \<^verbatim>\<open>foo\<close>, \<^verbatim>\<open>[Y: 2]\<close>,
  \<^verbatim>\<open>bar\<close> the first pull yields the request for \<^verbatim>\<open>foo\<close> with the header line
  \<^verbatim>\<open>X: 1\<close>, the second the request for \<^verbatim>\<open>bar\<close> with both header lines, and the third,
  after the restart (loop count 1), the request for \<^verbatim>\<open>foo\<close> with both header lines
  \<^verbatim>\<open>X: 1\<close> and \<^verbatim>\<open>Y: 2\<close>, in the one or the other order, the same in both records. The
  order in which a set is walked is any that lists each member once.
\<close>

theorem UriReader_headers_persist:
  assumes "lists_set order {''X: 1''}" and "lists_set order {''Y: 2'', ''X: 1''}"
  shows "(\<forall>f m f'. UriReader_next order f = Some (m, f') \<and> lists_set order (self_headers f') \<longrightarrow>
            self_headers f \<subseteq> self_headers f'
            \<and> self_headers f \<subseteq> set (order (self_headers f'))
            \<and> (\<exists>u. m = (''GET '' @ u @ '' HTTP/'' @ http_ver f @ CRLF
                          @ concat (map (\<lambda>h. h @ CRLF) (order (self_headers f'))) @ CRLF, None)))
       \<and> UriReader_first order (fresh_uri_reader uri_example [] ''1.1'') =
           Some ((''GET foo HTTP/1.1'' @ CRLF @ ''X: 1'' @ CRLF @ CRLF, None),
                 uri_example_state 11 [''X: 1''] 0)
       \<and> (UriReader_next order (uri_example_state 11 [''X: 1''] 0) =
             Some ((''GET bar HTTP/1.1'' @ CRLF @ ''X: 1'' @ CRLF @ ''Y: 2'' @ CRLF @ CRLF, None),
                   uri_example_state 22 [''Y: 2'', ''X: 1''] 0)
           \<and> UriReader_next order (uri_example_state 22 [''Y: 2'', ''X: 1''] 0) =
             Some ((''GET foo HTTP/1.1'' @ CRLF @ ''X: 1'' @ CRLF @ ''Y: 2'' @ CRLF @ CRLF, None),
                   uri_example_state 11 [''Y: 2'', ''X: 1''] 1)
          \<or> UriReader_next order (uri_example_state 11 [''X: 1''] 0) =
             Some ((''GET bar HTTP/1.1'' @ CRLF @ ''Y: 2'' @ CRLF @ ''X: 1'' @ CRLF @ CRLF, None),
                   uri_example_state 22 [''Y: 2'', ''X: 1''] 0)
           \<and> UriReader_next order (uri_example_state 22 [''Y: 2'', ''X: 1''] 0) =
             Some ((''GET foo HTTP/1.1'' @ CRLF @ ''Y: 2'' @ CRLF @ ''X: 1'' @ CRLF @ CRLF, None),
                   uri_example_state 11 [''Y: 2'', ''X: 1''] 1))"
proof (intro conjI allI impI)
  fix f :: "'a uri_reader_state_scheme" and m f'
  assume a: "UriReader_next order f = Some (m, f') \<and> lists_set order (self_headers f')"
  then have "UriReader_scan order f = Some (m, f')"
    by (simp add: UriReader_next_def)
  from UriReader_scan_headers [OF this]
  have s: "self_headers f \<subseteq> self_headers f'"
    and m: "\<exists>u. m = (to_s order (HttpAmmo_init u (self_headers f') ''GET'' (http_ver f) []), None)"
    by simp_all
  show "self_headers f \<subseteq> self_headers f'"
    by (rule s)
  show "self_headers f \<subseteq> set (order (self_headers f'))"
    using s a by (simp add: lists_set_def)
  show "\<exists>u. m = (''GET '' @ u @ '' HTTP/'' @ http_ver f @ CRLF
                  @ concat (map (\<lambda>h. h @ CRLF) (order (self_headers f'))) @ CRLF, None)"
    using m a by (simp add: to_s_no_body)
next
  have o: "order {''X: 1''} = [''X: 1'']"
    using assms(1) by (simp add: lists_set_def singleton_list)
  have "UriReader_first order (fresh_uri_reader uri_example [] ''1.1'') =
       Some ((to_s order (HttpAmmo_init ''foo'' {''X: 1''} ''GET'' ''1.1'' []), None),
             uri_example_state 11 [''X: 1''] 0)"
    by code_simp
  then show "UriReader_first order (fresh_uri_reader uri_example [] ''1.1'') =
           Some ((''GET foo HTTP/1.1'' @ CRLF @ ''X: 1'' @ CRLF @ CRLF, None),
                 uri_example_state 11 [''X: 1''] 0)"
    by (simp add: to_s_no_body [OF assms(1)] o)
next
  have e2: "UriReader_next order (uri_example_state 11 [''X: 1''] 0) =
       Some ((to_s order (HttpAmmo_init ''bar'' {''Y: 2'', ''X: 1''} ''GET'' ''1.1'' []), None),
             uri_example_state 22 [''Y: 2'', ''X: 1''] 0)"
    by code_simp
  have e3: "UriReader_next order (uri_example_state 22 [''Y: 2'', ''X: 1''] 0) =
       Some ((to_s order (HttpAmmo_init ''foo'' {''Y: 2'', ''X: 1''} ''GET'' ''1.1'' []), None),
             uri_example_state 11 [''Y: 2'', ''X: 1''] 1)"
    by code_simp
  have "set (order {''Y: 2'', ''X: 1''}) = {''X: 1'', ''Y: 2''}" and "distinct (order {''Y: 2'', ''X: 1''})"
    using assms(2) by (auto simp: lists_set_def)
  moreover have "''X: 1'' \<noteq> ''Y: 2''"
    by simp
  ultimately have "order {''Y: 2'', ''X: 1''} = [''X: 1'', ''Y: 2'']
      \<or> order {''Y: 2'', ''X: 1''} = [''Y: 2'', ''X: 1'']"
    by (rule pair_list)
  then show "UriReader_next order (uri_example_state 11 [''X: 1''] 0) =
             Some ((''GET bar HTTP/1.1'' @ CRLF @ ''X: 1'' @ CRLF @ ''Y: 2'' @ CRLF @ CRLF, None),
                   uri_example_state 22 [''Y: 2'', ''X: 1''] 0)
           \<and> UriReader_next order (uri_example_state 22 [''Y: 2'', ''X: 1''] 0) =
             Some ((''GET foo HTTP/1.1'' @ CRLF @ ''X: 1'' @ CRLF @ ''Y: 2'' @ CRLF @ CRLF, None),
                   uri_example_state 11 [''Y: 2'', ''X: 1''] 1)
          \<or> UriReader_next order (uri_example_state 11 [''X: 1''] 0) =
             Some ((''GET bar HTTP/1.1'' @ CRLF @ ''Y: 2'' @ CRLF @ ''X: 1'' @ CRLF @ CRLF, None),
                   uri_example_state 22 [''Y: 2'', ''X: 1''] 0)
           \<and> UriReader_next order (uri_example_state 22 [''Y: 2'', ''X: 1''] 0) =
             Some ((''GET foo HTTP/1.1'' @ CRLF @ ''Y: 2'' @ CRLF @ ''X: 1'' @ CRLF @ CRLF, None),
                   uri_example_state 11 [''Y: 2'', ''X: 1''] 1)"
  proof
    assume o: "order {''Y: 2'', ''X: 1''} = [''X: 1'', ''Y: 2'']"
    show ?thesis
      unfolding e2 e3 by (rule disjI1) (simp add: to_s_no_body [OF assms(2)] o)
  next
    assume o: "order {''Y: 2'', ''X: 1''} = [''Y: 2'', ''X: 1'']"
    show ?thesis
      unfolding e2 e3 by (rule disjI2) (simp add: to_s_no_body [OF assms(2)] o)
  qed
qed

theorem UriReader_headers_persist_witness:
  "UriReader_first (order_by [''X: 1'', ''Y: 2'']) (fresh_uri_reader uri_example [] ''1.1'') =
     Some ((''GET foo HTTP/1.1'' @ CRLF @ ''X: 1'' @ CRLF @ CRLF, None),
           uri_example_state 11 [''X: 1''] 0)
   \<and> UriReader_next (order_by [''X: 1'', ''Y: 2'']) (uri_example_state 11 [''X: 1''] 0) =
     Some ((''GET bar HTTP/1.1'' @ CRLF @ ''X: 1'' @ CRLF @ ''Y: 2'' @ CRLF @ CRLF, None),
           uri_example_state 22 [''Y: 2'', ''X: 1''] 0)
   \<and> UriReader_next (order_by [''X: 1'', ''Y: 2'']) (uri_example_state 22 [''Y: 2'', ''X: 1''] 0) =
     Some ((''GET foo HTTP/1.1'' @ CRLF @ ''X: 1'' @ CRLF @ ''Y: 2'' @ CRLF @ CRLF, None),
           uri_example_state 11 [''Y: 2'', ''X: 1''] 1)
   \<and> self_headers (uri_example_state 22 [''Y: 2'', ''X: 1''] 0)
       \<subseteq> set (order_by [''X: 1'', ''Y: 2''] (self_headers (uri_example_state 11 [''Y: 2'', ''X: 1''] 1)))"
proof -
  let ?order = "order_by [''X: 1'', ''Y: 2'']"
  have h1: "lists_set ?order {''X: 1''}"
    by (simp add: lists_set_def order_by_def)
  have h2: "lists_set ?order {''Y: 2'', ''X: 1''}"
    by (auto simp: lists_set_def order_by_def)
  note t = UriReader_headers_persist [OF h1 h2]
  have o: "?order {''Y: 2'', ''X: 1''} = [''X: 1'', ''Y: 2'']"
    by (simp add: order_by_def)
  have e1: "UriReader_first ?order (fresh_uri_reader uri_example [] ''1.1'') =
     Some ((''GET foo HTTP/1.1'' @ CRLF @ ''X: 1'' @ CRLF @ CRLF, None),
           uri_example_state 11 [''X: 1''] 0)"
    using t by (elim conjE)
  have ne: "''GET bar HTTP/1.1'' @ CRLF @ ''Y: 2'' @ CRLF @ ''X: 1'' @ CRLF @ CRLF
      \<noteq> ''GET bar HTTP/1.1'' @ CRLF @ ''X: 1'' @ CRLF @ ''Y: 2'' @ CRLF @ CRLF"
    by (simp add: CRLF_def)
  have e2: "UriReader_next ?order (uri_example_state 11 [''X: 1''] 0) =
     Some ((''GET bar HTTP/1.1'' @ CRLF @ ''X: 1'' @ CRLF @ ''Y: 2'' @ CRLF @ CRLF, None),
           uri_example_state 22 [''Y: 2'', ''X: 1''] 0)"
    by code_simp
  have e3: "UriReader_next ?order (uri_example_state 22 [''Y: 2'', ''X: 1''] 0) =
     Some ((''GET foo HTTP/1.1'' @ CRLF @ ''X: 1'' @ CRLF @ ''Y: 2'' @ CRLF @ CRLF, None),
           uri_example_state 11 [''Y: 2'', ''X: 1''] 1)"
    using t [THEN conjunct2, THEN conjunct2] ne unfolding e2 by auto
  have h3: "lists_set ?order (self_headers (uri_example_state 11 [''Y: 2'', ''X: 1''] 1))"
    using h2 by (simp add: uri_example_state_def)
  have "self_headers (uri_example_state 22 [''Y: 2'', ''X: 1''] 0)
       \<subseteq> set (?order (self_headers (uri_example_state 11 [''Y: 2'', ''X: 1''] 1)))"
    using t [THEN conjunct1, rule_format, OF conjI, OF e3 h3] by (elim conjE)
  with e1 e2 e3 show ?thesis
    by (intro conjI)
qed

section \<open>Properties of the slow-log reader\<close>

lemma SlowLogReader_scan_prefix:
  "SlowLogReader_scan f = Some r \<Longrightarrow> request f \<noteq> [] \<longrightarrow> (\<exists>rest. fst (fst r) = request f @ rest)"
proof (induction f r rule: SlowLogReader_scan.raw_induct [rotated 1, consumes 1])
  case (1 scan f r)
  obtain line f1 where rl: "readline f = (line, f1)"
    by (cases "readline f")
  have f1: "request f1 = request f"
    using rl by (auto simp: readline_def Let_def)
  show ?case
  proof (cases "line = []")
    case True
    then have "scan (inc_loop_count (seek0 f1\<lparr>af_position := 0\<rparr>)) = Some r"
      using 1(2) rl by simp
    from 1(1) [OF this] show ?thesis
      using f1 by (simp add: inc_loop_count_def seek0_def)
  next
    case False
    note ne = this
    show ?thesis
    proof (cases "startswith line ''#''")
      case True
      note hash = this
      show ?thesis
      proof (cases "request f = []")
        case True
        then show ?thesis by simp
      next
        case False
        then have "r = ((request f1, None), f1\<lparr>af_position := fpos f1\<rparr>)"
          using 1(2) rl ne hash f1 by (simp add: Let_def)
        then show ?thesis
          using f1 by simp
      qed
    next
      case False
      then have "scan (f1\<lparr>af_position := fpos f1, request := request f1 @ line\<rparr>) = Some r"
        using 1(2) rl ne by (simp add: Let_def)
      from 1(1) [OF this] show ?thesis
        using f1 ne by auto
    qed
  qed
qed

text \<open>
  C8, as the code has it: when the slow-log reader is at the end of the input with a
  non-empty request buffer, it emits no record there; it seeks to offset 0, sets the
  published position to 0 and increments the loop count, and the buffer stays as it is. The
  next record the reader emits, if any, begins with the buffered text.
\<close>

theorem SlowLogReader_keeps_trailing_request:
  assumes "length (fdata f) \<le> fpos f" and "request f \<noteq> []"
  shows "SlowLogReader_scan f =
           SlowLogReader_scan (f\<lparr>fpos := 0, af_position := 0, loop_count := loop_count f + 1\<rparr>)
       \<and> request (f\<lparr>fpos := 0, af_position := 0, loop_count := loop_count f + 1\<rparr>) = request f
       \<and> (\<forall>m f'. SlowLogReader_scan f = Some (m, f') \<longrightarrow> (\<exists>rest. fst m = request f @ rest))"
proof (intro conjI allI impI)
  show "SlowLogReader_scan f =
           SlowLogReader_scan (f\<lparr>fpos := 0, af_position := 0, loop_count := loop_count f + 1\<rparr>)"
    using assms(1)
    by (subst SlowLogReader_scan.simps) (simp add: readline_eof inc_loop_count_def seek0_def)
  show "request (f\<lparr>fpos := 0, af_position := 0, loop_count := loop_count f + 1\<rparr>) = request f"
    by simp
next
  fix m f'
  assume "SlowLogReader_scan f = Some (m, f')"
  from SlowLogReader_scan_prefix [OF this] assms(2)
  show "\<exists>rest. fst m = request f @ rest"
    by simp
qed

text \<open>
  C8 as stated fails on the two lines \<^verbatim>\<open>#\<close>, \<^verbatim>\<open>q\<close>: the request \<^verbatim>\<open>q\<close> is buffered when
  the input ends, and the first record the reader emits, after the restart (loop count 1),
  is that request.
\<close>

theorem trailing_request_counterexample:
  "SlowLogReader_first (fresh_slowlog (''#'' @ [LF] @ ''q'' @ [LF])) =
     Some ((''q'' @ [LF], None),
           (fresh_slowlog (''#'' @ [LF] @ ''q'' @ [LF]))
             \<lparr>af_size := 4, af_position := 2, loop_count := 1, fpos := 2, request := ''q'' @ [LF]\<rparr>)"
  by code_simp

theorem SlowLogReader_keeps_trailing_request_witness:
  "SlowLogReader_scan ((fresh_slowlog (''#'' @ [LF] @ ''q'' @ [LF]))\<lparr>fpos := 4, request := ''q'' @ [LF]\<rparr>) =
     Some ((''q'' @ [LF], None),
           (fresh_slowlog (''#'' @ [LF] @ ''q'' @ [LF]))
             \<lparr>af_position := 2, loop_count := 1, fpos := 2, request := ''q'' @ [LF]\<rparr>)
   \<and> (\<exists>rest. fst (''q'' @ [LF], None :: string option) =
         request ((fresh_slowlog (''#'' @ [LF] @ ''q'' @ [LF]))\<lparr>fpos := 4, request := ''q'' @ [LF]\<rparr>) @ rest)"
proof -
  let ?f = "(fresh_slowlog (''#'' @ [LF] @ ''q'' @ [LF]))\<lparr>fpos := 4, request := ''q'' @ [LF]\<rparr>"
  have h1: "length (fdata ?f) \<le> fpos ?f"
    by (simp add: fresh_slowlog_def)
  have h2: "request ?f \<noteq> []"
    by simp
  note t = SlowLogReader_keeps_trailing_request [OF h1 h2]
  have r: "SlowLogReader_scan (?f\<lparr>fpos := 0, af_position := 0, loop_count := loop_count ?f + 1\<rparr>) =
     Some ((''q'' @ [LF], None),
           (fresh_slowlog (''#'' @ [LF] @ ''q'' @ [LF]))
             \<lparr>af_position := 2, loop_count := 1, fpos := 2, request := ''q'' @ [LF]\<rparr>)"
    by code_simp
  have s: "SlowLogReader_scan ?f =
     Some ((''q'' @ [LF], None),
           (fresh_slowlog (''#'' @ [LF] @ ''q'' @ [LF]))
             \<lparr>af_position := 2, loop_count := 1, fpos := 2, request := ''q'' @ [LF]\<rparr>)"
    using t [THEN conjunct1] r by simp
  from t [THEN conjunct2, THEN conjunct2, rule_format, OF s] s show ?thesis
    by (intro conjI)
qed

section \<open>Properties of the URI-list generator\<close>

text \<open>
  C9, as the code has it: for every non-empty URI list, a pull that resumes the generator
  after a \<^verbatim>\<open>yield\<close> sets the loop count to the record count the status sink holds at
  that moment divided by the length of the URI list, rounded down (the integer division of
  Python 2), leaves the record count alone and yields the next record.
\<close>

theorem UriStyleGenerator_loop_count_floor:
  assumes "us \<noteq> []" and "missiles g = missiles (UriStyleGenerator_init order us hdrs ver st)"
    and "uri_count g = length us"
  shows "\<exists>m g'. UriStyleGenerator_next g = Yielded m g'
           \<and> loop_count g' = ammo_count g div int (length us)
           \<and> ammo_count g' = ammo_count g"
  using assms
  by (simp add: UriStyleGenerator_next_def cycle_next_def UriStyleGenerator_init_def
      status.extend_def uri_style_state.fields_def)

text \<open>
  C9 as stated fails for two URIs after one record: the loop count published is 0 and not
  the exact quotient one half.
\<close>

theorem loop_count_quotient_counterexample:
  "loop_count (step_state (UriStyleGenerator_next
      ((step_state (UriStyleGenerator_first
          (UriStyleGenerator_init (order_by []) [''/a'', ''/b''] [] ''1.1'' zero_status)))
        \<lparr>ammo_count := 1\<rparr>))) = 0
   \<and> real_of_int (loop_count (step_state (UriStyleGenerator_next
      ((step_state (UriStyleGenerator_first
          (UriStyleGenerator_init (order_by []) [''/a'', ''/b''] [] ''1.1'' zero_status)))
        \<lparr>ammo_count := 1\<rparr>)))) \<noteq> real 1 / real (length [''/a'', ''/b''])"
  by (simp add: UriStyleGenerator_next_def UriStyleGenerator_first_def cycle_next_def
      UriStyleGenerator_init_def status.extend_def uri_style_state.fields_def step_state_def
      zero_status_def)

theorem UriStyleGenerator_loop_count_floor_witness:
  "\<exists>m g'. UriStyleGenerator_next
       ((UriStyleGenerator_init (order_by []) [''/a'', ''/b''] [] ''1.1'' zero_status)\<lparr>ammo_count := 3\<rparr>)
         = Yielded m g'
       \<and> loop_count g' = 1"
proof -
  let ?g = "(UriStyleGenerator_init (order_by []) [''/a'', ''/b''] [] ''1.1'' zero_status)\<lparr>ammo_count := 3\<rparr>"
  have h1: "[''/a'', ''/b''] \<noteq> []"
    by simp
  have h2: "missiles ?g = missiles (UriStyleGenerator_init (order_by []) [''/a'', ''/b''] [] ''1.1'' zero_status)"
    by simp
  have h3: "uri_count ?g = length [''/a'', ''/b'']"
    by (simp add: UriStyleGenerator_init_def status.extend_def uri_style_state.fields_def)
  have d: "ammo_count ?g div int (length [''/a'', ''/b'']) = 1"
    by simp
  show ?thesis
    using UriStyleGenerator_loop_count_floor [OF h1 h2 h3] unfolding d by blast
qed

section \<open>Properties of the factory\<close>

lemma factory_minus_one:
  assumes "loop_limit a = PyInt (- 1)" and "ammo_limit a = PyInt (- 1)" and "\<not> truthy (rps_schedule a)"
  shows "\<exists>l. ComponentFactory_init a = Inr l \<and> status_loop_limit l = Some 1"
  using assms by (simp add: ComponentFactory_init_def int_of_def Let_def)

lemma factory_loop_limit_unbounded:
  assumes "loop_limit a = PyInt (- 1)" and "int_of (ammo_limit a) = Inr al" and "truthy (rps_schedule a)"
  shows "\<exists>l. ComponentFactory_init a = Inr l \<and> status_loop_limit l = None"
  using assms by (simp add: ComponentFactory_init_def int_of_def Let_def)

lemma factory_ammo_limit_unbounded:
  assumes "int_of (loop_limit a) = Inr ll" and "ammo_limit a = PyInt (- 1)" and "\<not> truthy (uris a)"
  shows "\<exists>l. ComponentFactory_init a = Inr l \<and> status_ammo_limit l = None"
  using assms
  by (cases "uris a")
    (auto simp: ComponentFactory_init_def int_of_def [of "PyInt (- 1)"] Let_def truthy_def
      split: option.splits)

text \<open>
  C5: with no loop limit, no ammo limit and no rate schedule supplied, the arguments are the
  defaults of the signature, \<^verbatim>\<open>None\<close>. The constructor then stops at
  \<^verbatim>\<open>int(loop_limit)\<close> with \<^verbatim>\<open>TypeError\<close> and resolves no limit; the loop limit 1 is
  reached only when both limits are passed as \<open>-1\<close> (lemma \<open>factory_minus_one\<close>); a limit
  passed as \<open>-1\<close> is turned into \<^verbatim>\<open>None\<close>, no limit.
\<close>

theorem factory_defaults_raise: "ComponentFactory_init defaults = Inl TypeError"
  by (simp add: ComponentFactory_init_def defaults_def int_of_def)

end
